theory Spec2Isabelle
  imports Main "HOL-Library.Word" "HOL-Library.List_Lexorder" "HOL-Library.AList" "HOL-Library.Sublist"
begin

section \<open>Bytes, little-endian integers and readers\<close>

text \<open>
  A Go \<^verbatim>\<open>string\<close> and a \<^verbatim>\<open>[]byte\<close> are both sequences of bytes. Keys, values and
  file contents are byte lists; \<^verbatim>\<open>key < other\<close> on Go strings is the bytewise
  lexicographic order, which is the order of \<open>8 word list\<close> here.
\<close>

type_synonym byte = "8 word"
type_synonym bytes = "byte list"

text \<open>
  \<^verbatim>\<open>binary.Write(w, binary.LittleEndian, x)\<close> of an n-byte integer writes its bytes, least
  significant first; \<^verbatim>\<open>binary.Read\<close> puts them together again.
\<close>

primrec le_bytes :: "nat \<Rightarrow> 'a::len word \<Rightarrow> bytes" where
  "le_bytes 0 w = []"
| "le_bytes (Suc n) w = ucast w # le_bytes n (drop_bit 8 w)"

primrec le_word :: "bytes \<Rightarrow> 'a::len word" where
  "le_word [] = 0"
| "le_word (b # bs) = or (ucast b) (push_bit 8 (le_word bs))"

text \<open>
  The errors of the readers: \<^verbatim>\<open>io.EOF\<close>, \<^verbatim>\<open>io.ErrUnexpectedEOF\<close>, a file that does not
  exist, and a failed write of the operating system (the sticky error of a
  \<^verbatim>\<open>bufio.Writer\<close>).
\<close>

datatype io_error = EOF | ErrUnexpectedEOF | ErrNotExist | ErrWrite

text \<open>
  \<^verbatim>\<open>io.ReadFull(reader, buf)\<close> with \<open>n = len(buf)\<close>, on a reader that holds \<open>bs\<close>: an empty
  buffer is filled at once; no byte at all is \<^verbatim>\<open>io.EOF\<close>, some but fewer than \<open>n\<close> is
  \<^verbatim>\<open>io.ErrUnexpectedEOF\<close>. The result is the bytes read and the rest of the input.
\<close>

definition ReadFull :: "nat \<Rightarrow> bytes \<Rightarrow> io_error + (bytes \<times> bytes)" where
  "ReadFull n bs =
     (if n = 0 then Inr ([], bs)
      else if bs = [] then Inl EOF
      else if length bs < n then Inl ErrUnexpectedEOF
      else Inr (take n bs, drop n bs))"

definition ReadByte :: "bytes \<Rightarrow> io_error + (byte \<times> bytes)" where
  "ReadByte bs = (case bs of [] \<Rightarrow> Inl EOF | b # rest \<Rightarrow> Inr (b, rest))"

text \<open>\<^verbatim>\<open>binary.Read\<close> of an \<^verbatim>\<open>int64\<close> and of a \<^verbatim>\<open>uint32\<close>: \<^verbatim>\<open>io.ReadFull\<close> of 8 or 4 bytes.\<close>

definition binary_Read64 :: "bytes \<Rightarrow> io_error + (64 word \<times> bytes)" where
  "binary_Read64 bs =
     (case ReadFull 8 bs of Inl err \<Rightarrow> Inl err | Inr (b, rest) \<Rightarrow> Inr (le_word b, rest))"

definition binary_Read32 :: "bytes \<Rightarrow> io_error + (32 word \<times> bytes)" where
  "binary_Read32 bs =
     (case ReadFull 4 bs of Inl err \<Rightarrow> Inl err | Inr (b, rest) \<Rightarrow> Inr (le_word b, rest))"

section \<open>Write-ahead log\<close>

record WALEntry =
  OpType :: byte
  WKey :: bytes
  WValue :: bytes
  WTimestamp :: "64 word"

definition OpTypePut :: byte where "OpTypePut = 1"
definition OpTypeDelete :: byte where "OpTypeDelete = 2"

text \<open>
  The bytes \<^verbatim>\<open>WAL.Append\<close> writes for one entry:
  opType(1) + timestamp(8) + keyLen(4) + key + valueLen(4) + value, where the lengths
  are \<^verbatim>\<open>uint32(len(...))\<close>.
\<close>

definition walRecord :: "WALEntry \<Rightarrow> bytes" where
  "walRecord entry =
     OpType entry # le_bytes 8 (WTimestamp entry)
       @ le_bytes 4 (word_of_nat (length (WKey entry)) :: 32 word) @ WKey entry
       @ le_bytes 4 (word_of_nat (length (WValue entry)) :: 32 word) @ WValue entry"

text \<open>
  An entry whose key and value \<^verbatim>\<open>uint32(len(...))\<close> does not cut short: the record then
  states the true lengths.
\<close>

definition wfWALEntry :: "WALEntry \<Rightarrow> bool" where
  "wfWALEntry entry = (length (WKey entry) < 2 ^ 32 \<and> length (WValue entry) < 2 ^ 32)"

text \<open>
  The WAL owns a file opened with \<^verbatim>\<open>O_APPEND\<close> and a \<^verbatim>\<open>bufio.Writer\<close> of 256 KiB on it:
  \<open>wfile\<close> is what the file holds, \<open>buffered\<close> what the writer holds back, \<open>werr\<close> the
  writer's sticky error (set when a write to the file has failed; every later write
  returns it).
\<close>

record WAL =
  wfile :: bytes
  buffered :: bytes
  werr :: "io_error option"

definition bufSize :: nat where "bufSize = 256 * 1024"

definition Available :: "WAL \<Rightarrow> nat" where
  "Available w = bufSize - length (buffered w)"

definition bufio_Flush :: "WAL \<Rightarrow> WAL" where
  "bufio_Flush w = w\<lparr>wfile := wfile w @ buffered w, buffered := []\<rparr>"

definition bufio_WriteByte :: "byte \<Rightarrow> WAL \<Rightarrow> WAL" where
  "bufio_WriteByte c w =
     (let w1 = (if Available w \<le> 0 then bufio_Flush w else w)
      in w1\<lparr>buffered := buffered w1 @ [c]\<rparr>)"

text \<open>
  \<^verbatim>\<open>bufio.Writer.Write(p)\<close>: while \<open>p\<close> is longer than the room left, an empty buffer
  sends \<open>p\<close> straight to the file, a buffer in use is filled up and flushed; what then
  remains is copied into the buffer. After one flush the buffer is empty, so the loop
  runs at most twice.
\<close>

definition bufio_Write_direct :: "bytes \<Rightarrow> WAL \<Rightarrow> WAL" where
  "bufio_Write_direct p w =
     (if length p > Available w then w\<lparr>wfile := wfile w @ p\<rparr>
      else w\<lparr>buffered := buffered w @ p\<rparr>)"

definition bufio_Write :: "bytes \<Rightarrow> WAL \<Rightarrow> WAL" where
  "bufio_Write p w =
     (if length p > Available w then
        (if buffered w = [] then w\<lparr>wfile := wfile w @ p\<rparr>
         else let n = Available w
              in bufio_Write_direct (drop n p) (bufio_Flush (w\<lparr>buffered := buffered w @ take n p\<rparr>)))
      else w\<lparr>buffered := buffered w @ p\<rparr>)"

text \<open>
  \<^verbatim>\<open>WAL.Append\<close>. The first write returns the writer's sticky error when there is one, and
  nothing is written. The buffer is flushed only when it is nearly full (group commit).
\<close>

definition Append :: "WAL \<Rightarrow> WALEntry \<Rightarrow> io_error option \<times> WAL" where
  "Append w entry =
     (case werr w of
        Some err \<Rightarrow> (Some err, w)
      | None \<Rightarrow>
          (let w1 = bufio_WriteByte (OpType entry) w;
               w2 = bufio_Write (le_bytes 8 (WTimestamp entry)) w1;
               keyLen = (word_of_nat (length (WKey entry)) :: 32 word);
               w3 = bufio_Write (le_bytes 4 keyLen) w2;
               w4 = bufio_Write (WKey entry) w3;
               valueLen = (word_of_nat (length (WValue entry)) :: 32 word);
               w5 = bufio_Write (le_bytes 4 valueLen) w4;
               w6 = bufio_Write (WValue entry) w5
           in (None, if length (buffered w6) \<ge> bufSize - 4096 then bufio_Flush w6 else w6)))"

text \<open>\<^verbatim>\<open>WAL.Size\<close> is the size of the file; \<^verbatim>\<open>WAL.Truncate\<close> empties file and writer.\<close>

definition WAL_Size :: "WAL \<Rightarrow> int" where
  "WAL_Size w = int (length (wfile w))"

definition Truncate :: "WAL \<Rightarrow> WAL" where
  "Truncate w = w\<lparr>wfile := [], buffered := [], werr := None\<rparr>"

definition Sync :: "WAL \<Rightarrow> WAL" where
  "Sync w = (case werr w of Some err \<Rightarrow> w | None \<Rightarrow> bufio_Flush w)"

text \<open>Everything appended so far, in order: the file and then the writer's buffer.\<close>

definition wal_content :: "WAL \<Rightarrow> bytes" where
  "wal_content w = wfile w @ buffered w"

text \<open>
  One round of the loop of \<^verbatim>\<open>WAL.Replay\<close> after the opType byte has been read: the
  timestamp, the key and the value. Every failed read is returned as it is.
\<close>

definition readWALBody :: "byte \<Rightarrow> bytes \<Rightarrow> io_error + (WALEntry \<times> bytes)" where
  "readWALBody opType bs =
     (case binary_Read64 bs of Inl err \<Rightarrow> Inl err | Inr (ts, r1) \<Rightarrow>
      (case binary_Read32 r1 of Inl err \<Rightarrow> Inl err | Inr (keyLen, r2) \<Rightarrow>
       (case ReadFull (unat keyLen) r2 of Inl err \<Rightarrow> Inl err | Inr (keyBytes, r3) \<Rightarrow>
        (case binary_Read32 r3 of Inl err \<Rightarrow> Inl err | Inr (valueLen, r4) \<Rightarrow>
         (case ReadFull (unat valueLen) r4 of Inl err \<Rightarrow> Inl err | Inr (valueBytes, r5) \<Rightarrow>
            Inr (\<lparr>OpType = opType, WKey = keyBytes, WValue = valueBytes, WTimestamp = ts\<rparr>, r5))))))"

lemma ReadFull_length: "ReadFull n bs = Inr (b, rest) \<Longrightarrow> length rest \<le> length bs"
  by (auto simp: ReadFull_def split: if_splits)

lemma binary_Read64_length: "binary_Read64 bs = Inr (x, rest) \<Longrightarrow> length rest \<le> length bs"
  by (auto simp: binary_Read64_def split: sum.splits dest: ReadFull_length)

lemma binary_Read32_length: "binary_Read32 bs = Inr (x, rest) \<Longrightarrow> length rest \<le> length bs"
  by (auto simp: binary_Read32_def split: sum.splits dest: ReadFull_length)

lemma readWALBody_length:
  assumes "readWALBody opType bs = Inr (entry, rest)"
  shows "length rest \<le> length bs"
proof -
  from assms obtain ts r1 keyLen r2 keyBytes r3 valueLen r4 valueBytes where
    s: "binary_Read64 bs = Inr (ts, r1)" "binary_Read32 r1 = Inr (keyLen, r2)"
       "ReadFull (unat keyLen) r2 = Inr (keyBytes, r3)" "binary_Read32 r3 = Inr (valueLen, r4)"
       "ReadFull (unat valueLen) r4 = Inr (valueBytes, rest)"
    by (auto simp: readWALBody_def split: sum.splits)
  from s(1) have "length r1 \<le> length bs" by (rule binary_Read64_length)
  moreover from s(2) have "length r2 \<le> length r1" by (rule binary_Read32_length)
  moreover from s(3) have "length r3 \<le> length r2" by (rule ReadFull_length)
  moreover from s(4) have "length r4 \<le> length r3" by (rule binary_Read32_length)
  moreover from s(5) have "length rest \<le> length r4" by (rule ReadFull_length)
  ultimately show ?thesis by linarith
qed

text \<open>
  The loop of \<^verbatim>\<open>WAL.Replay\<close> over the bytes of the file from offset 0: \<^verbatim>\<open>io.EOF\<close> on the
  opType byte ends the log; any other failed read returns \<^verbatim>\<open>nil, err\<close>.
\<close>

function replayLoop :: "bytes \<Rightarrow> WALEntry list \<Rightarrow> io_error + WALEntry list" where
  "replayLoop bs entries =
     (case ReadByte bs of
        Inl err \<Rightarrow> (if err = EOF then Inr entries else Inl err)
      | Inr (opType, r) \<Rightarrow>
          (case readWALBody opType r of
             Inl err \<Rightarrow> Inl err
           | Inr (entry, rest) \<Rightarrow> replayLoop rest (entries @ [entry])))"
  by pat_completeness auto
termination
  by (relation "measure (\<lambda>(bs, entries). length bs)")
     (auto simp: ReadByte_def split: list.splits dest!: readWALBody_length)

declare replayLoop.simps [simp del]

definition Replay :: "WAL \<Rightarrow> io_error + WALEntry list" where
  "Replay w = replayLoop (wfile w) []"

section \<open>The clock\<close>

text \<open>
  \<^verbatim>\<open>time.Now().UnixNano()\<close> is an input from outside the program. A clock is the sequence
  of the readings still to come: a call returns reading 0 and leaves the rest.
\<close>

type_synonym Clock = "nat \<Rightarrow> 64 word"

definition UnixNano :: "Clock \<Rightarrow> 64 word" where
  "UnixNano c = c 0"

definition tick :: "Clock \<Rightarrow> Clock" where
  "tick c = (\<lambda>n. c (Suc n))"

section \<open>MemTable\<close>

record Entry =
  Key :: bytes
  Value :: bytes
  Timestamp :: "64 word"
  Deleted :: bool

text \<open>
  \<^verbatim>\<open>data map[string]*Entry\<close> is an association list with one pair for each key. Go ranges
  over a map in an order it does not specify; the list fixes one (the order of first
  insertion). \<open>msize\<close> and \<open>maxSize\<close> are \<^verbatim>\<open>int64\<close> byte counts, far from overflow, as
  \<open>int\<close>.
\<close>

record MemTable =
  data :: "(bytes \<times> Entry) list"
  msize :: int
  maxSize :: int

definition NewMemTable :: "int \<Rightarrow> MemTable" where
  "NewMemTable mx = \<lparr>data = [], msize = 0, maxSize = mx\<rparr>"

definition MemTable_Put :: "MemTable \<Rightarrow> bytes \<Rightarrow> bytes \<Rightarrow> Clock \<Rightarrow> MemTable \<times> Clock" where
  "MemTable_Put m key val c =
     (let entry = \<lparr>Key = key, Value = val, Timestamp = UnixNano c, Deleted = False\<rparr>;
          size1 = (case map_of (data m) key of
                     Some old \<Rightarrow> msize m - int (length (Key old) + length (Value old))
                   | None \<Rightarrow> msize m)
      in (m\<lparr>msize := size1 + int (length key + length val),
             data := AList.update key entry (data m)\<rparr>, tick c))"

definition MemTable_Get :: "MemTable \<Rightarrow> bytes \<Rightarrow> bytes option" where
  "MemTable_Get m key =
     (case map_of (data m) key of
        None \<Rightarrow> None
      | Some entry \<Rightarrow> if Deleted entry then None else Some (Value entry))"

definition MemTable_Delete :: "MemTable \<Rightarrow> bytes \<Rightarrow> Clock \<Rightarrow> bool \<times> MemTable \<times> Clock" where
  "MemTable_Delete m key c =
     (case map_of (data m) key of
        None \<Rightarrow> (False, m, c)
      | Some entry \<Rightarrow>
          if Deleted entry then (False, m, c)
          else (True,
                m\<lparr>data := AList.update key (entry\<lparr>Deleted := True, Timestamp := UnixNano c\<rparr>) (data m)\<rparr>,
                tick c))"

definition MemTable_Keys :: "MemTable \<Rightarrow> bytes list" where
  "MemTable_Keys m = map fst (filter (\<lambda>(k, entry). \<not> Deleted entry) (data m))"

definition MemTable_PrefixScan :: "MemTable \<Rightarrow> bytes \<Rightarrow> bytes list" where
  "MemTable_PrefixScan m pre =
     map (\<lambda>(k, entry). Value entry)
       (filter (\<lambda>(k, entry). \<not> Deleted entry \<and> length k \<ge> length pre \<and> take (length pre) k = pre)
          (data m))"

definition IsFull :: "MemTable \<Rightarrow> bool" where
  "IsFull m = (msize m \<ge> maxSize m)"

definition Entries :: "MemTable \<Rightarrow> Entry list" where
  "Entries m = map snd (data m)"

section \<open>Segments (SST files) and their manager\<close>

text \<open>
  The metadata of a segment. \<^verbatim>\<open>FilePath\<close> is \<^verbatim>\<open>dataDir/%06d.sst\<close> of the id, so the id
  stands for the path. \<open>Index\<close> is the sparse index \<^verbatim>\<open>map[string]int64\<close> from a key to
  the byte offset of its record.
\<close>

record SSTable =
  ID :: int
  Index :: "(bytes \<times> int) list"
  MinKey :: bytes
  MaxKey :: bytes
  Size :: int

text \<open>
  The manager with the segment files of the data directory: \<open>files\<close> gives the content
  of the file of an id, or \<open>None\<close> when there is no such file. Creating, writing and
  removing a file always succeed here; opening a file that is not there fails.
\<close>

record SSTManager =
  sstables :: "SSTable list"
  nextID :: int
  files :: "int \<Rightarrow> bytes option"

text \<open>
  The bytes \<^verbatim>\<open>SSTManager.Flush\<close> writes for one entry:
  timestamp(8) + deleted(1) + keyLen(4) + key + valueLen(4) + value.
\<close>

definition sstRecord :: "Entry \<Rightarrow> bytes" where
  "sstRecord entry =
     le_bytes 8 (Timestamp entry) @ [if Deleted entry then 1 else 0]
       @ le_bytes 4 (word_of_nat (length (Key entry)) :: 32 word) @ Key entry
       @ le_bytes 4 (word_of_nat (length (Value entry)) :: 32 word) @ Value entry"

text \<open>An entry whose key and value \<^verbatim>\<open>uint32(len(...))\<close> does not cut short.\<close>

definition wfEntry :: "Entry \<Rightarrow> bool" where
  "wfEntry entry = (length (Key entry) < 2 ^ 32 \<and> length (Value entry) < 2 ^ 32)"

text \<open>
  The write loop of \<^verbatim>\<open>Flush\<close>: \<open>i\<close> is the loop index, \<open>offset\<close> the running byte offset
  (advanced by the \<^verbatim>\<open>uint32\<close> lengths, as the source does), \<open>idx\<close> the sparse index
  (every 10th entry), \<open>out\<close> the bytes written.
\<close>

fun writeEntries :: "Entry list \<Rightarrow> nat \<Rightarrow> int \<Rightarrow> (bytes \<times> int) list \<Rightarrow> bytes
    \<Rightarrow> (bytes \<times> int) list \<times> int \<times> bytes" where
  "writeEntries [] i offset idx out = (idx, offset, out)"
| "writeEntries (entry # entries) i offset idx out =
     (let startOffset = offset;
          keyLen = (word_of_nat (length (Key entry)) :: 32 word);
          valueLen = (word_of_nat (length (Value entry)) :: 32 word);
          offset' = offset + 8 + 1 + 4 + int (unat keyLen) + 4 + int (unat valueLen);
          idx' = (if i mod 10 = 0 then AList.update (Key entry) startOffset idx else idx)
      in writeEntries entries (Suc i) offset' idx' (out @ sstRecord entry))"

text \<open>
  \<^verbatim>\<open>SSTManager.Flush\<close>. Nothing is written for an empty batch. \<^verbatim>\<open>sort.Slice\<close> by key is
  \<open>sort_key Key\<close> (the batches of the callers have one entry for each key, so the order
  among equal keys does not arise). The new segment goes to the front of the list.
\<close>

definition Flush :: "SSTManager \<Rightarrow> Entry list \<Rightarrow> SSTManager" where
  "Flush sm entries0 =
     (if length entries0 = 0 then sm
      else
        let id = nextID sm;
            entries = sort_key Key entries0;
            (idx, offset, out) = writeEntries entries 0 0 [] [];
            sst = \<lparr>ID = id, Index = idx, MinKey = Key (hd entries), MaxKey = Key (last entries),
                   Size = offset\<rparr>
        in sm\<lparr>nextID := id + 1,
               files := (files sm)(id \<mapsto> out),
               sstables := sst # sstables sm\<rparr>)"

text \<open>
  One record of a segment file after its timestamp: the deleted flag, the key and the
  value. Every failed read is returned as it is.
\<close>

definition readSSTBody :: "bytes \<Rightarrow> io_error + ((byte \<times> bytes \<times> bytes) \<times> bytes)" where
  "readSSTBody bs =
     (case ReadByte bs of Inl err \<Rightarrow> Inl err | Inr (deleted, r1) \<Rightarrow>
      (case binary_Read32 r1 of Inl err \<Rightarrow> Inl err | Inr (keyLen, r2) \<Rightarrow>
       (case ReadFull (unat keyLen) r2 of Inl err \<Rightarrow> Inl err | Inr (keyBytes, r3) \<Rightarrow>
        (case binary_Read32 r3 of Inl err \<Rightarrow> Inl err | Inr (valueLen, r4) \<Rightarrow>
         (case ReadFull (unat valueLen) r4 of Inl err \<Rightarrow> Inl err | Inr (valueBytes, r5) \<Rightarrow>
            Inr ((deleted, keyBytes, valueBytes), r5))))))"

lemma readSSTBody_length:
  assumes "readSSTBody bs = Inr (x, rest)"
  shows "length rest \<le> length bs"
proof -
  from assms obtain deleted r1 keyLen r2 keyBytes r3 valueLen r4 valueBytes where
    s: "ReadByte bs = Inr (deleted, r1)" "binary_Read32 r1 = Inr (keyLen, r2)"
       "ReadFull (unat keyLen) r2 = Inr (keyBytes, r3)" "binary_Read32 r3 = Inr (valueLen, r4)"
       "ReadFull (unat valueLen) r4 = Inr (valueBytes, rest)"
    by (auto simp: readSSTBody_def split: sum.splits)
  from s(1) have "length r1 \<le> length bs" by (auto simp: ReadByte_def split: list.splits)
  moreover from s(2) have "length r2 \<le> length r1" by (rule binary_Read32_length)
  moreover from s(3) have "length r3 \<le> length r2" by (rule ReadFull_length)
  moreover from s(4) have "length r4 \<le> length r3" by (rule binary_Read32_length)
  moreover from s(5) have "length rest \<le> length r4" by (rule ReadFull_length)
  ultimately show ?thesis by linarith
qed

lemma binary_Read64_shorter: "binary_Read64 bs = Inr (x, rest) \<Longrightarrow> length rest < length bs"
  by (auto simp: binary_Read64_def ReadFull_def split: sum.splits if_splits)

text \<open>
  The scan loop of \<^verbatim>\<open>getFromSST\<close> over the bytes from the start offset. \<^verbatim>\<open>io.EOF\<close> on the
  timestamp ends the scan. A record with the key ends it too: with \<open>None\<close>
  (\<^verbatim>\<open>nil, false, nil\<close>) for a tombstone, with the value otherwise.
\<close>

function scanSST :: "bytes \<Rightarrow> bytes \<Rightarrow> io_error + bytes option" where
  "scanSST key bs =
     (case binary_Read64 bs of
        Inl err \<Rightarrow> (if err = EOF then Inr None else Inl err)
      | Inr (timestamp, r) \<Rightarrow>
          (case readSSTBody r of
             Inl err \<Rightarrow> Inl err
           | Inr ((deleted, entryKey, valueBytes), rest) \<Rightarrow>
               if entryKey = key then (if deleted = 1 then Inr None else Inr (Some valueBytes))
               else if entryKey > key then Inr None
               else scanSST key rest))"
  by pat_completeness auto
termination
  by (relation "measure (\<lambda>(key, bs). length bs)")
     (auto dest!: readSSTBody_length binary_Read64_shorter)

declare scanSST.simps [simp del]

text \<open>
  \<^verbatim>\<open>getFromSST\<close>: open the file, take the greatest offset among the index keys \<open>\<le> key\<close>
  (0 when there is none), seek there and scan.
\<close>

definition startOffsetOf :: "(bytes \<times> int) list \<Rightarrow> bytes \<Rightarrow> int" where
  "startOffsetOf idx key =
     fold (\<lambda>(indexKey, offset) startOffset.
             if indexKey \<le> key \<and> offset > startOffset then offset else startOffset) idx 0"

definition getFromSST :: "SSTManager \<Rightarrow> SSTable \<Rightarrow> bytes \<Rightarrow> io_error + bytes option" where
  "getFromSST sm sst key =
     (case files sm (ID sst) of
        None \<Rightarrow> Inl ErrNotExist
      | Some content \<Rightarrow> scanSST key (drop (nat (startOffsetOf (Index sst) key)) content))"

text \<open>
  The loop of \<^verbatim>\<open>SSTManager.Get\<close> over the segments, newest first: a segment whose key
  range excludes the key is skipped; an error is returned; a found value is returned;
  on \<^verbatim>\<open>found == false\<close> the loop goes on with the next segment.
\<close>

fun getLoop :: "SSTManager \<Rightarrow> SSTable list \<Rightarrow> bytes \<Rightarrow> io_error + bytes option" where
  "getLoop sm [] key = Inr None"
| "getLoop sm (sst # ssts) key =
     (if key < MinKey sst \<or> key > MaxKey sst then getLoop sm ssts key
      else (case getFromSST sm sst key of
              Inl err \<Rightarrow> Inl err
            | Inr (Some v) \<Rightarrow> Inr (Some v)
            | Inr None \<Rightarrow> getLoop sm ssts key))"

definition SSTManager_Get :: "SSTManager \<Rightarrow> bytes \<Rightarrow> io_error + bytes option" where
  "SSTManager_Get sm key = getLoop sm (sstables sm) key"

definition GetAllSSTables :: "SSTManager \<Rightarrow> SSTable list" where
  "GetAllSSTables sm = sstables sm"

text \<open>
  \<^verbatim>\<open>RemoveSSTable\<close>: the first segment of the list with the id is dropped and its file
  removed; with no such segment nothing happens.
\<close>

fun removeByID :: "int \<Rightarrow> SSTable list \<Rightarrow> SSTable list" where
  "removeByID i [] = []"
| "removeByID i (s # ss) = (if ID s = i then ss else s # removeByID i ss)"

definition RemoveSSTable :: "SSTManager \<Rightarrow> SSTable \<Rightarrow> SSTManager" where
  "RemoveSSTable sm sst =
     (if ID sst \<in> set (map ID (sstables sm))
      then sm\<lparr>sstables := removeByID (ID sst) (sstables sm), files := (files sm)(ID sst := None)\<rparr>
      else sm)"

section \<open>Compactor\<close>

text \<open>The read loop of \<^verbatim>\<open>readAllEntries\<close>: every record of the file, in file order.\<close>

function readEntries :: "bytes \<Rightarrow> Entry list \<Rightarrow> io_error + Entry list" where
  "readEntries bs entries =
     (case binary_Read64 bs of
        Inl err \<Rightarrow> (if err = EOF then Inr entries else Inl err)
      | Inr (timestamp, r) \<Rightarrow>
          (case readSSTBody r of
             Inl err \<Rightarrow> Inl err
           | Inr ((deleted, keyBytes, valueBytes), rest) \<Rightarrow>
               readEntries rest
                 (entries @ [\<lparr>Key = keyBytes, Value = valueBytes, Timestamp = timestamp,
                              Deleted = (deleted = 1)\<rparr>])))"
  by pat_completeness auto
termination
  by (relation "measure (\<lambda>(bs, entries). length bs)")
     (auto dest!: readSSTBody_length binary_Read64_shorter)

declare readEntries.simps [simp del]

definition readAllEntries :: "SSTManager \<Rightarrow> SSTable \<Rightarrow> io_error + Entry list" where
  "readAllEntries sm sst =
     (case files sm (ID sst) of
        None \<Rightarrow> Inl ErrNotExist
      | Some content \<Rightarrow> readEntries content [])"

text \<open>
  The inner loop body of \<^verbatim>\<open>mergeSSTs\<close>: an entry replaces the one of its key in
  \<open>entryMap\<close> when there is none or when its \<^verbatim>\<open>int64\<close> timestamp is greater.
\<close>

definition mergeEntry :: "Entry \<Rightarrow> (bytes \<times> Entry) list \<Rightarrow> (bytes \<times> Entry) list" where
  "mergeEntry entry entryMap =
     (case map_of entryMap (Key entry) of
        None \<Rightarrow> AList.update (Key entry) entry entryMap
      | Some existing \<Rightarrow>
          if sint (Timestamp entry) > sint (Timestamp existing)
          then AList.update (Key entry) entry entryMap
          else entryMap)"

fun mergeLoop :: "SSTManager \<Rightarrow> SSTable list \<Rightarrow> (bytes \<times> Entry) list
    \<Rightarrow> io_error + (bytes \<times> Entry) list" where
  "mergeLoop sm [] entryMap = Inr entryMap"
| "mergeLoop sm (sst # ssts) entryMap =
     (case readAllEntries sm sst of
        Inl err \<Rightarrow> Inl err
      | Inr entries \<Rightarrow> mergeLoop sm ssts (fold mergeEntry entries entryMap))"

text \<open>
  \<^verbatim>\<open>mergeSSTs\<close>: the entries of the map that are not tombstones, sorted by key.
\<close>

definition mergeSSTs :: "SSTManager \<Rightarrow> SSTable list \<Rightarrow> io_error + Entry list" where
  "mergeSSTs sm ssts =
     (case mergeLoop sm ssts [] of
        Inl err \<Rightarrow> Inl err
      | Inr entryMap \<Rightarrow> Inr (sort_key Key (filter (\<lambda>entry. \<not> Deleted entry) (map snd entryMap))))"

text \<open>
  \<^verbatim>\<open>Compactor.compact\<close>: nothing with at most 4 segments; else the last 4 of the list
  are merged, the result is flushed and the 4 are removed.
\<close>

definition compact :: "SSTManager \<Rightarrow> io_error option \<times> SSTManager" where
  "compact sm =
     (let ssts = GetAllSSTables sm
      in if length ssts \<le> 4 then (None, sm)
         else
           let toMerge = drop (length ssts - 4) ssts
           in (case mergeSSTs sm toMerge of
                 Inl err \<Rightarrow> (Some err, sm)
               | Inr mergedEntries \<Rightarrow>
                   (None, fold (\<lambda>sst m. RemoveSSTable m sst) toMerge (Flush sm mergedEntries))))"

text \<open>
  What \<^verbatim>\<open>mergeSSTs\<close> returns for the records of the merged files, in the order read;
  and the segments \<^verbatim>\<open>compact\<close> merges, the last 4 of the list (the oldest).
\<close>

definition mergedOutput :: "Entry list \<Rightarrow> Entry list" where
  "mergedOutput entries =
     sort_key Key (filter (\<lambda>entry. \<not> Deleted entry) (map snd (fold mergeEntry entries [])))"

definition oldest4 :: "SSTManager \<Rightarrow> SSTable list" where
  "oldest4 sm = drop (length (sstables sm) - 4) (sstables sm)"

section \<open>Engine\<close>

record Stats =
  Writes :: int
  Reads :: int
  Deletes :: int
  Flushes :: int
  Compactions :: int
  MemTableSize :: int
  SSTCount :: int
  WALSize :: int
  TotalDataSize :: int

definition Stats0 :: Stats where
  "Stats0 = \<lparr>Writes = 0, Reads = 0, Deletes = 0, Flushes = 0, Compactions = 0,
              MemTableSize = 0, SSTCount = 0, WALSize = 0, TotalDataSize = 0\<rparr>"

text \<open>
  The engine. \<open>MemTableMaxSize\<close> is the one field of \<^verbatim>\<open>Config\<close> that the operations
  read. \<open>flushCh\<close> is the channel of capacity 1: \<open>True\<close> when a signal waits in it.
  \<open>clock\<close> is the clock of the process.
\<close>

record Engine =
  memtable :: MemTable
  immutableMemtables :: "MemTable list"
  sstManager :: SSTManager
  wal :: WAL
  MemTableMaxSize :: int
  flushCh :: bool
  stats :: Stats
  clock :: Clock

datatype engine_error =
    KeyTooLarge nat
  | WALAppendFailed io_error
  | SSTLookupFailed io_error
  | RecoveryFailed io_error

definition rotateMemTable :: "Engine \<Rightarrow> Engine" where
  "rotateMemTable e =
     e\<lparr>immutableMemtables := immutableMemtables e @ [memtable e],
       memtable := NewMemTable (MemTableMaxSize e),
       flushCh := True\<rparr>"

text \<open>\<^verbatim>\<open>Engine.Put\<close>: the error and the engine afterwards.\<close>

definition Put :: "Engine \<Rightarrow> bytes \<Rightarrow> bytes \<Rightarrow> engine_error option \<times> Engine" where
  "Put e key val =
     (if length key > 100 * 1024 then (Some (KeyTooLarge (length key)), e)
      else
        let walEntry = \<lparr>OpType = OpTypePut, WKey = key, WValue = val,
                         WTimestamp = UnixNano (clock e)\<rparr>;
            c1 = tick (clock e)
        in (case Append (wal e) walEntry of
              (Some err, w) \<Rightarrow> (Some (WALAppendFailed err), e\<lparr>wal := w, clock := c1\<rparr>)
            | (None, w) \<Rightarrow>
                let (m, c2) = MemTable_Put (memtable e) key val c1;
                    e1 = e\<lparr>wal := w, memtable := m, clock := c2,
                           stats := (stats e)\<lparr>Writes := Writes (stats e) + 1,
                                              MemTableSize := msize m\<rparr>\<rparr>
                in (None, if IsFull m then rotateMemTable e1 else e1)))"

text \<open>
  The loop of \<^verbatim>\<open>Engine.Get\<close> over \<^verbatim>\<open>e.immutableMemtables\<close>, in the order of the slice.
\<close>

fun getImmutable :: "MemTable list \<Rightarrow> bytes \<Rightarrow> bytes option" where
  "getImmutable [] key = None"
| "getImmutable (mt # mts) key =
     (case MemTable_Get mt key of Some v \<Rightarrow> Some v | None \<Rightarrow> getImmutable mts key)"

text \<open>
  \<^verbatim>\<open>Engine.Get\<close>: \<open>Inr (Some v)\<close> is \<^verbatim>\<open>(v, true, nil)\<close>, \<open>Inr None\<close> is \<^verbatim>\<open>(nil, false, nil)\<close>.
  The reads counter is incremented first.
\<close>

definition Get :: "Engine \<Rightarrow> bytes \<Rightarrow> (engine_error + bytes option) \<times> Engine" where
  "Get e key =
     (let e1 = e\<lparr>stats := (stats e)\<lparr>Reads := Reads (stats e) + 1\<rparr>\<rparr>
      in (case MemTable_Get (memtable e1) key of
            Some v \<Rightarrow> (Inr (Some v), e1)
          | None \<Rightarrow>
              (case getImmutable (immutableMemtables e1) key of
                 Some v \<Rightarrow> (Inr (Some v), e1)
               | None \<Rightarrow>
                   (case SSTManager_Get (sstManager e1) key of
                      Inl err \<Rightarrow> (Inl (SSTLookupFailed err), e1)
                    | Inr r \<Rightarrow> (Inr r, e1)))))"

text \<open>
  What \<^verbatim>\<open>Engine.Get\<close> looks up, apart from the counter and the wrapping of the error:
  the active MemTable, the immutable MemTables, the segments.
\<close>

definition lookup :: "Engine \<Rightarrow> bytes \<Rightarrow> io_error + bytes option" where
  "lookup e key =
     (case MemTable_Get (memtable e) key of
        Some v \<Rightarrow> Inr (Some v)
      | None \<Rightarrow>
          (case getImmutable (immutableMemtables e) key of
             Some v \<Rightarrow> Inr (Some v)
           | None \<Rightarrow> SSTManager_Get (sstManager e) key))"

text \<open>\<^verbatim>\<open>Engine.Delete\<close>: the probe through \<^verbatim>\<open>Get\<close>, the WAL record, the tombstone.\<close>

definition Delete :: "Engine \<Rightarrow> bytes \<Rightarrow> (engine_error + bool) \<times> Engine" where
  "Delete e key =
     (case Get e key of
        (Inl err, e1) \<Rightarrow> (Inl err, e1)
      | (Inr None, e1) \<Rightarrow> (Inr False, e1)
      | (Inr (Some v), e1) \<Rightarrow>
          let walEntry = \<lparr>OpType = OpTypeDelete, WKey = key, WValue = [],
                           WTimestamp = UnixNano (clock e1)\<rparr>;
              c1 = tick (clock e1)
          in (case Append (wal e1) walEntry of
                (Some err, w) \<Rightarrow> (Inl (WALAppendFailed err), e1\<lparr>wal := w, clock := c1\<rparr>)
              | (None, w) \<Rightarrow>
                  let (deleted, m, c2) = MemTable_Delete (memtable e1) key c1;
                      e2 = e1\<lparr>wal := w, memtable := m, clock := c2,
                              stats := (stats e1)\<lparr>Deletes := Deletes (stats e1) + 1\<rparr>\<rparr>
                  in (Inr deleted, if IsFull m then rotateMemTable e2 else e2)))"

text \<open>
  \<^verbatim>\<open>Engine.Keys\<close> and \<^verbatim>\<open>Engine.PrefixScan\<close> collect into a Go map (\<^verbatim>\<open>keySet\<close>, keyed by the
  key; \<^verbatim>\<open>valueMap\<close>, keyed by \<^verbatim>\<open>string(value)\<close>) and return its keys or values, in an order
  Go does not specify. Only the MemTables are read.
\<close>

definition Keys :: "Engine \<Rightarrow> bytes list" where
  "Keys e =
     (let keySet0 = fold (\<lambda>key ks. AList.update key True ks) (MemTable_Keys (memtable e)) [];
          keySet = fold (\<lambda>mt ks. fold (\<lambda>key ks. AList.update key True ks) (MemTable_Keys mt) ks)
                     (immutableMemtables e) keySet0
      in map fst keySet)"

definition PrefixScan :: "Engine \<Rightarrow> bytes \<Rightarrow> bytes list" where
  "PrefixScan e pre =
     (let valueMap0 = fold (\<lambda>v vm. AList.update v v vm) (MemTable_PrefixScan (memtable e) pre) [];
          valueMap = fold (\<lambda>mt vm. fold (\<lambda>v vm. AList.update v v vm) (MemTable_PrefixScan mt pre) vm)
                       (immutableMemtables e) valueMap0
      in map snd valueMap)"

text \<open>
  \<^verbatim>\<open>Engine.flush\<close>, one run of the flush worker: the head of the immutable queue goes to
  a new segment, the WAL is truncated when the queue is then empty.
\<close>

definition flush :: "Engine \<Rightarrow> Engine" where
  "flush e =
     (case immutableMemtables e of
        [] \<Rightarrow> e
      | mt # rest \<Rightarrow>
          let shouldTruncateWAL = (length rest = 0);
              sm = Flush (sstManager e) (Entries mt);
              w = (if shouldTruncateWAL then Truncate (wal e) else wal e)
          in e\<lparr>immutableMemtables := rest, sstManager := sm, wal := w,
                stats := (stats e)\<lparr>Flushes := Flushes (stats e) + 1,
                                   SSTCount := int (length (GetAllSSTables sm))\<rparr>\<rparr>)"

definition flusher :: "Engine \<Rightarrow> Engine" where
  "flusher e = (if flushCh e then flush (e\<lparr>flushCh := False\<rparr>) else e)"

text \<open>
  \<^verbatim>\<open>Engine.Close\<close>: the immutable MemTables and then the active one are flushed to
  segments, whatever they hold, and the WAL writer is flushed; the WAL is not truncated.
\<close>

definition Close :: "Engine \<Rightarrow> io_error option \<times> Engine" where
  "Close e =
     (let sm1 = fold (\<lambda>mt sm. Flush sm (Entries mt)) (immutableMemtables e) (sstManager e);
          sm2 = Flush sm1 (Entries (memtable e))
      in (case werr (wal e) of
            Some err \<Rightarrow> (Some err, e\<lparr>sstManager := sm2\<rparr>)
          | None \<Rightarrow> (None, e\<lparr>sstManager := sm2, wal := bufio_Flush (wal e)\<rparr>)))"

definition GetStats :: "Engine \<Rightarrow> Stats" where
  "GetStats e =
     (stats e)\<lparr>MemTableSize := msize (memtable e),
               SSTCount := int (length (GetAllSSTables (sstManager e))),
               WALSize := WAL_Size (wal e)\<rparr>"

text \<open>
  \<^verbatim>\<open>Engine.recover\<close>: the entries of the WAL are applied to the active MemTable, each
  with the clock reading of the moment of the replay; an opType other than put and
  delete is passed over.
\<close>

definition applyEntry :: "WALEntry \<Rightarrow> Engine \<Rightarrow> Engine" where
  "applyEntry entry e =
     (if OpType entry = OpTypePut then
        (let (m, c) = MemTable_Put (memtable e) (WKey entry) (WValue entry) (clock e)
         in e\<lparr>memtable := m, clock := c\<rparr>)
      else if OpType entry = OpTypeDelete then
        (let (deleted, m, c) = MemTable_Delete (memtable e) (WKey entry) (clock e)
         in e\<lparr>memtable := m, clock := c\<rparr>)
      else e)"

definition recover :: "Engine \<Rightarrow> io_error + Engine" where
  "recover e =
     (case Replay (wal e) of
        Inl err \<Rightarrow> Inl err
      | Inr entries \<Rightarrow> Inr (fold applyEntry entries e))"

text \<open>
  \<^verbatim>\<open>NewEngine\<close>, from the configured MemTable size, the content of \<^verbatim>\<open>wal.log\<close> as
  \<^verbatim>\<open>NewWAL\<close> opens it, the manager that \<^verbatim>\<open>NewSSTManager\<close> has built and the clock.
  A failed recovery is the error \<^verbatim>\<open>recovery failed\<close>, and there is no engine.
\<close>

definition NewWAL :: "bytes \<Rightarrow> WAL" where
  "NewWAL content = \<lparr>wfile = content, buffered = [], werr = None\<rparr>"

definition NewEngine :: "int \<Rightarrow> bytes \<Rightarrow> SSTManager \<Rightarrow> Clock \<Rightarrow> engine_error + Engine" where
  "NewEngine mx walContent sm c =
     (let engine = \<lparr>memtable = NewMemTable mx, immutableMemtables = [], sstManager = sm,
                     wal = NewWAL walContent, MemTableMaxSize = mx, flushCh = False,
                     stats = Stats0, clock = c\<rparr>
      in (case recover engine of
            Inl err \<Rightarrow> Inl (RecoveryFailed err)
          | Inr e \<Rightarrow> Inr e))"

text \<open>The manager of a data directory without segment files.\<close>

definition NewSSTManager_empty :: SSTManager where
  "NewSSTManager_empty = \<lparr>sstables = [], nextID = 1, files = (\<lambda>i. None)\<rparr>"

text \<open>
  The engine on an empty data directory: no WAL content, no segments.
\<close>

definition emptyEngine :: "int \<Rightarrow> Clock \<Rightarrow> Engine" where
  "emptyEngine mx c =
     \<lparr>memtable = NewMemTable mx, immutableMemtables = [], sstManager = NewSSTManager_empty,
      wal = NewWAL [], MemTableMaxSize = mx, flushCh = False, stats = Stats0, clock = c\<rparr>"

text \<open>
  Scenario 5 of the specification, from the empty data directory: write, read, read,
  delete of one key, then the counters that \<^verbatim>\<open>status\<close> prints (\<^verbatim>\<open>executeCommand\<close> calls
  \<^verbatim>\<open>Put\<close>, \<^verbatim>\<open>Get\<close>, \<^verbatim>\<open>Delete\<close> and \<^verbatim>\<open>GetStats\<close> once each).
\<close>

definition statusScenario :: "int \<Rightarrow> Clock \<Rightarrow> bytes \<Rightarrow> bytes \<Rightarrow> Stats" where
  "statusScenario mx c k v =
     (let e0 = emptyEngine mx c;
          e1 = snd (Put e0 k v);
          e2 = snd (Get e1 k);
          e3 = snd (Get e2 k);
          e4 = snd (Delete e3 k)
      in GetStats e4)"

text \<open>
  The MemTable that has taken the last put: the active one, or, when the put has filled
  it and it was rotated (the active one is then new and empty), the last of the
  immutable queue.
\<close>

definition putTable :: "Engine \<Rightarrow> MemTable" where
  "putTable e = (if data (memtable e) = [] then last (immutableMemtables e) else memtable e)"

section \<open>Key validation of the command parser\<close>

text \<open>
  \<^verbatim>\<open>isValidKey\<close> of the server package, called by \<^verbatim>\<open>ParseCommand\<close> on the key of
  \<^verbatim>\<open>read\<close>, \<^verbatim>\<open>write\<close> and \<^verbatim>\<open>delete\<close>. The source ranges over the runes of the key; a byte
  from 0x80 on decodes to a rune from 0x80 on (or to U+FFFD), which is outside the
  class as the byte is, and an ASCII byte decodes to itself, so the loop over the bytes
  returns the same.
\<close>

definition validKeyChar :: "byte \<Rightarrow> bool" where
  "validKeyChar ch =
     ((ch \<ge> 0x61 \<and> ch \<le> 0x7A) \<or> (ch \<ge> 0x41 \<and> ch \<le> 0x5A) \<or> (ch \<ge> 0x30 \<and> ch \<le> 0x39)
      \<or> ch = 0x2E \<or> ch = 0x2D \<or> ch = 0x3A \<or> ch = 0x5F)"

fun validKeyLoop :: "bytes \<Rightarrow> bool" where
  "validKeyLoop [] = True"
| "validKeyLoop (ch # rest) = (if \<not> validKeyChar ch then False else validKeyLoop rest)"

definition isValidKey :: "bytes \<Rightarrow> bool" where
  "isValidKey key = (if length key = 0 then False else validKeyLoop key)"

section \<open>Example inputs\<close>

text \<open>A clock whose n-th reading is n, the keys \<^verbatim>\<open>k\<close> and \<^verbatim>\<open>a\<close>, some values.\<close>

definition clk :: Clock where "clk = (\<lambda>n. word_of_nat n)"

definition key_k :: bytes where "key_k = [0x6B]"
definition key_a :: bytes where "key_a = [0x61]"
definition val_v1 :: bytes where "val_v1 = [0x76, 0x31]"
definition val_v2 :: bytes where "val_v2 = [0x76, 0x32]"
definition val_b :: bytes where "val_b = [0x62]"

text \<open>The key \<^verbatim>\<open>a b\<close>, with a space.\<close>

definition key_with_space :: bytes where "key_with_space = [0x61, 0x20, 0x62]"

text \<open>
  The keys \<^verbatim>\<open>u:a\<close> and \<^verbatim>\<open>u:b\<close>, the prefix \<^verbatim>\<open>u:\<close>, and an engine with a MemTable limit
  of 4 bytes after the puts of \<^verbatim>\<open>u:a\<close> and \<^verbatim>\<open>u:b\<close> with the same value.
\<close>

definition key_ua :: bytes where "key_ua = [0x75, 0x3A, 0x61]"
definition key_ub :: bytes where "key_ub = [0x75, 0x3A, 0x62]"
definition pre_u :: bytes where "pre_u = [0x75, 0x3A]"

definition scanEngine :: Engine where
  "scanEngine = snd (Put (snd (Put (emptyEngine 4 clk) key_ua val_b)) key_ub val_b)"

text \<open>
  Engines for the delete and the tombstone of a key that also lives in an older layer.
  \<open>delEngine\<close>: limit 3, put of \<^verbatim>\<open>k\<close> (3 bytes, so the MemTable is rotated at once).
  \<open>tombInMemTable\<close>: limit 4, put \<^verbatim>\<open>k|v1\<close>, put \<^verbatim>\<open>a|b\<close> (rotation), put \<^verbatim>\<open>k|v2\<close>, delete
  \<^verbatim>\<open>k\<close>. \<open>tombInSegment\<close>: the same with a run of the flush worker after each rotation
  and a second put of \<^verbatim>\<open>a|b\<close> that rotates the MemTable with the tombstone. The entries
  are the ones the two segments then hold.
\<close>

definition delEngine :: Engine where
  "delEngine = snd (Put (emptyEngine 3 clk) key_k val_v1)"

definition tombInMemTable :: Engine where
  "tombInMemTable =
     (let e1 = snd (Put (emptyEngine 4 clk) key_k val_v1);
          e2 = snd (Put e1 key_a val_b);
          e3 = snd (Put e2 key_k val_v2)
      in snd (Delete e3 key_k))"

definition firstSegment :: Engine where
  "firstSegment = flusher (snd (Put (snd (Put (emptyEngine 4 clk) key_k val_v1)) key_a val_b))"

definition tombInSegment :: Engine where
  "tombInSegment =
     flusher (snd (Put (snd (Delete (snd (Put firstSegment key_k val_v2)) key_k)) key_a val_b))"

definition rec_a :: Entry where
  "rec_a = \<lparr>Key = key_a, Value = val_b, Timestamp = 3, Deleted = False\<rparr>"
definition rec_k :: Entry where
  "rec_k = \<lparr>Key = key_k, Value = val_v1, Timestamp = 1, Deleted = False\<rparr>"
definition rec_a2 :: Entry where
  "rec_a2 = \<lparr>Key = key_a, Value = val_b, Timestamp = 9, Deleted = False\<rparr>"
definition rec_k_tomb :: Entry where
  "rec_k_tomb = \<lparr>Key = key_k, Value = val_v2, Timestamp = 7, Deleted = True\<rparr>"

text \<open>
  Two managers with five segments each. \<open>compactManager\<close>: the flushes of five MemTables
  with \<^verbatim>\<open>k\<close> and \<^verbatim>\<open>a\<close> written, deleted and written again; \<open>compactEnts\<close> names the records
  of each file. \<open>tombManager\<close>: five segments that hold the tombstone of \<^verbatim>\<open>k\<close> only, as
  five sessions leave them that each replay the WAL \<open>tombWAL\<close> (put \<^verbatim>\<open>k\<close>, delete \<^verbatim>\<open>k\<close>)
  and close.
\<close>

definition rec_k3 :: Entry where
  "rec_k3 = \<lparr>Key = key_k, Value = val_v2, Timestamp = 11, Deleted = False\<rparr>"
definition rec_a_tomb :: Entry where
  "rec_a_tomb = \<lparr>Key = key_a, Value = val_b, Timestamp = 13, Deleted = True\<rparr>"
definition rec_k5 :: Entry where
  "rec_k5 = \<lparr>Key = key_k, Value = val_b, Timestamp = 15, Deleted = False\<rparr>"

definition compactManager :: SSTManager where
  "compactManager =
     Flush (Flush (Flush (Flush (Flush NewSSTManager_empty [rec_k, rec_a]) [rec_k_tomb, rec_a2])
       [rec_k3]) [rec_a_tomb]) [rec_k5]"

definition compactEnts :: "SSTable \<Rightarrow> Entry list" where
  "compactEnts sst =
     (if ID sst = 1 then [rec_a, rec_k] else if ID sst = 2 then [rec_a2, rec_k_tomb]
      else if ID sst = 3 then [rec_k3] else if ID sst = 4 then [rec_a_tomb] else [rec_k5])"

definition rec_t3 :: Entry where
  "rec_t3 = \<lparr>Key = key_k, Value = val_v1, Timestamp = 3, Deleted = True\<rparr>"
definition rec_t1 :: Entry where
  "rec_t1 = \<lparr>Key = key_k, Value = val_v1, Timestamp = 1, Deleted = True\<rparr>"

definition tombWAL :: bytes where
  "tombWAL = walRecord \<lparr>OpType = OpTypePut, WKey = key_k, WValue = val_v1, WTimestamp = 0\<rparr> @
             walRecord \<lparr>OpType = OpTypeDelete, WKey = key_k, WValue = [], WTimestamp = 2\<rparr>"

definition tombManager :: SSTManager where
  "tombManager =
     Flush (Flush (Flush (Flush (Flush NewSSTManager_empty [rec_t3]) [rec_t1]) [rec_t1])
       [rec_t1]) [rec_t1]"

definition tombEnts :: "SSTable \<Rightarrow> Entry list" where
  "tombEnts sst = (if ID sst = 1 then [rec_t3] else [rec_t1])"

text \<open>Two put records of a WAL.\<close>

definition wal_put_k :: WALEntry where
  "wal_put_k = \<lparr>OpType = OpTypePut, WKey = key_k, WValue = val_v1, WTimestamp = 7\<rparr>"

definition wal_put_a :: WALEntry where
  "wal_put_a = \<lparr>OpType = OpTypePut, WKey = key_a, WValue = val_v2, WTimestamp = 9\<rparr>"

section \<open>The WAL as a byte stream\<close>

lemma bufio_Flush_content: "wal_content (bufio_Flush w) = wal_content w"
  by (simp add: bufio_Flush_def wal_content_def)

lemma bufio_Flush_werr: "werr (bufio_Flush w) = werr w"
  by (simp add: bufio_Flush_def)

lemma bufio_WriteByte_content: "wal_content (bufio_WriteByte c w) = wal_content w @ [c]"
  by (simp add: bufio_WriteByte_def bufio_Flush_def wal_content_def Let_def)

lemma bufio_WriteByte_werr: "werr (bufio_WriteByte c w) = werr w"
  by (simp add: bufio_WriteByte_def bufio_Flush_def Let_def)

lemma bufio_Write_content: "wal_content (bufio_Write p w) = wal_content w @ p"
  by (simp add: bufio_Write_def bufio_Write_direct_def bufio_Flush_def wal_content_def Let_def)

lemma bufio_Write_werr: "werr (bufio_Write p w) = werr w"
  by (simp add: bufio_Write_def bufio_Write_direct_def bufio_Flush_def Let_def)

lemmas bufio_simps = bufio_Flush_content bufio_Flush_werr bufio_WriteByte_content
  bufio_WriteByte_werr bufio_Write_content bufio_Write_werr

lemma Append_err: "werr w = Some err \<Longrightarrow> Append w entry = (Some err, w)"
  by (simp add: Append_def)

lemma Append_None: "werr w = None \<Longrightarrow> fst (Append w entry) = None"
  by (simp add: Append_def Let_def)

lemma Append_werr: "werr (snd (Append w entry)) = werr w"
  by (cases "werr w") (simp_all add: Append_def Let_def bufio_simps)

lemma Append_content:
  "werr w = None \<Longrightarrow> wal_content (snd (Append w entry)) = wal_content w @ walRecord entry"
  by (simp add: Append_def Let_def bufio_simps walRecord_def)

lemma Append_ok:
  assumes "werr w = None"
  obtains w' where "Append w entry = (None, w')" "werr w' = None"
    "wal_content w' = wal_content w @ walRecord entry"
proof -
  have "Append w entry = (None, snd (Append w entry))"
    using Append_None [OF assms, of entry] by (metis prod.collapse)
  moreover have "werr (snd (Append w entry)) = None" using assms by (simp add: Append_werr)
  moreover note Append_content [OF assms, of entry]
  ultimately show ?thesis using that by blast
qed

lemma length_le_bytes [simp]: "length (le_bytes n w) = n"
  by (induction n arbitrary: w) simp_all

lemma bufio_WriteByte_fits:
  "length (buffered w) < bufSize \<Longrightarrow> bufio_WriteByte c w = w\<lparr>buffered := buffered w @ [c]\<rparr>"
  by (simp add: bufio_WriteByte_def Available_def)

lemma bufio_Write_fits:
  "length (buffered w) + length p \<le> bufSize \<Longrightarrow> bufio_Write p w = w\<lparr>buffered := buffered w @ p\<rparr>"
  by (simp add: bufio_Write_def Available_def)

lemma length_walRecord:
  "length (walRecord entry) = 17 + length (WKey entry) + length (WValue entry)"
  by (simp add: walRecord_def)

lemma Append_small:
  assumes "werr w = None" "length (buffered w) + length (walRecord entry) < bufSize - 4096"
  shows "Append w entry = (None, w\<lparr>buffered := buffered w @ walRecord entry\<rparr>)"
proof -
  have n: "length (buffered w) + 17 + length (WKey entry) + length (WValue entry) < bufSize - 4096"
    using assms(2) by (simp add: length_walRecord)
  show ?thesis
    using assms(1) n
    by (simp add: Append_def bufio_WriteByte_fits bufio_Write_fits walRecord_def Let_def)
qed


section \<open>Reading back what was written\<close>

lemma le_word_le_bytes: "(le_word (le_bytes n w) :: 'a::len word) = take_bit (8 * n) w"
proof (induction n arbitrary: w)
  case 0
  then show ?case by simp
next
  case (Suc n)
  show ?case
    apply (simp add: Suc)
    apply (rule bit_word_eqI)
    apply (auto simp add: bit_simps)
    done
qed

lemma le_word_le_bytes64: "(le_word (le_bytes 8 w) :: 64 word) = w"
  by (simp add: le_word_le_bytes take_bit_length_eq [where ?'a = 64, simplified])

lemma le_word_le_bytes32: "(le_word (le_bytes 4 w) :: 32 word) = w"
  by (simp add: le_word_le_bytes take_bit_length_eq [where ?'a = 32, simplified])

lemma ReadFull_append: "length a = n \<Longrightarrow> ReadFull n (a @ rest) = Inr (a, rest)"
  by (auto simp: ReadFull_def)

lemma binary_Read64_append: "binary_Read64 (le_bytes 8 w @ rest) = Inr (w, rest)"
  by (simp add: binary_Read64_def ReadFull_append le_word_le_bytes64)

lemma binary_Read32_append: "binary_Read32 (le_bytes 4 w @ rest) = Inr (w, rest)"
  by (simp add: binary_Read32_def ReadFull_append le_word_le_bytes32)

lemma unat_len32: "n < 2 ^ 32 \<Longrightarrow> unat (word_of_nat n :: 32 word) = n"
  by (simp add: unat_of_nat)

lemma readWALBody_record:
  assumes "wfWALEntry entry"
  shows "readWALBody (OpType entry) (tl (walRecord entry) @ rest) = Inr (entry, rest)"
  using assms
  by (simp add: readWALBody_def walRecord_def wfWALEntry_def binary_Read64_append
      binary_Read32_append ReadFull_append unat_len32)

lemma replayLoop_Cons:
  "replayLoop (opType # bs) acc =
     (case readWALBody opType bs of
        Inl err \<Rightarrow> Inl err
      | Inr (entry, rest) \<Rightarrow> replayLoop rest (acc @ [entry]))"
  by (subst replayLoop.simps) (simp add: ReadByte_def)

lemma walRecord_Cons: "walRecord entry = OpType entry # tl (walRecord entry)"
  by (simp add: walRecord_def)

lemma replayLoop_record:
  assumes "wfWALEntry entry"
  shows "replayLoop (walRecord entry @ rest) acc = replayLoop rest (acc @ [entry])"
proof -
  have "replayLoop (walRecord entry @ rest) acc
      = replayLoop (OpType entry # (tl (walRecord entry) @ rest)) acc"
    by (subst walRecord_Cons) simp
  also have "\<dots> = replayLoop rest (acc @ [entry])"
    by (simp add: replayLoop_Cons readWALBody_record [OF assms])
  finally show ?thesis .
qed

lemma replayLoop_records:
  assumes "\<forall>entry \<in> set entries. wfWALEntry entry"
  shows "replayLoop (concat (map walRecord entries) @ rest) acc = replayLoop rest (acc @ entries)"
  using assms
proof (induction entries arbitrary: acc)
  case Nil
  then show ?case by simp
next
  case (Cons entry entries)
  then show ?case by (simp add: replayLoop_record)
qed

lemma replayLoop_Nil: "replayLoop [] acc = Inr acc"
  by (subst replayLoop.simps) (simp add: ReadByte_def)

lemma ReadFull_strict_prefix:
  assumes "strict_prefix bs (a @ r)" "length a = n"
  shows "(\<exists>err. ReadFull n bs = Inl err) \<or> (\<exists>bs'. ReadFull n bs = Inr (a, bs') \<and> strict_prefix bs' r)"
proof (cases "length bs < n")
  case True
  then show ?thesis by (auto simp: ReadFull_def)
next
  case False
  from assms(1) obtain zs where zs: "a @ r = bs @ zs" "zs \<noteq> []"
    by (auto simp: strict_prefix_def prefix_def)
  from False assms(2) have "length a \<le> length bs" by simp
  with zs(1) obtain bs' where bs': "bs = a @ bs'"
    by (metis append_eq_append_conv_if append_take_drop_id)
  with zs have "r = bs' @ zs" by simp
  with zs(2) have "strict_prefix bs' r" by (auto simp: strict_prefix_def prefix_def)
  moreover have "ReadFull n bs = Inr (a, bs')"
    unfolding bs' using assms(2) by (rule ReadFull_append)
  ultimately show ?thesis by blast
qed

lemma binary_Read64_strict_prefix:
  assumes "strict_prefix bs (le_bytes 8 w @ r)"
  shows "(\<exists>err. binary_Read64 bs = Inl err) \<or>
         (\<exists>bs'. binary_Read64 bs = Inr (w, bs') \<and> strict_prefix bs' r)"
  using ReadFull_strict_prefix [OF assms, of 8]
  by (auto simp: binary_Read64_def le_word_le_bytes64)

lemma binary_Read32_strict_prefix:
  assumes "strict_prefix bs (le_bytes 4 w @ r)"
  shows "(\<exists>err. binary_Read32 bs = Inl err) \<or>
         (\<exists>bs'. binary_Read32 bs = Inr (w, bs') \<and> strict_prefix bs' r)"
  using ReadFull_strict_prefix [OF assms, of 4]
  by (auto simp: binary_Read32_def le_word_le_bytes32)

lemma readWALBody_truncated:
  assumes "wfWALEntry entry" "strict_prefix bs (tl (walRecord entry))"
  shows "\<exists>err. readWALBody opType bs = Inl err"
proof -
  let ?kl = "word_of_nat (length (WKey entry)) :: 32 word"
  let ?vl = "word_of_nat (length (WValue entry)) :: 32 word"
  have uk: "unat ?kl = length (WKey entry)" and uv: "unat ?vl = length (WValue entry)"
    using assms(1) by (simp_all add: wfWALEntry_def unat_len32)
  have 0: "strict_prefix bs (le_bytes 8 (WTimestamp entry) @ (le_bytes 4 ?kl @ WKey entry
       @ le_bytes 4 ?vl @ WValue entry))"
    using assms(2) by (simp add: walRecord_def)
  show ?thesis
  proof (rule ccontr)
    assume no: "\<nexists>err. readWALBody opType bs = Inl err"
    from binary_Read64_strict_prefix [OF 0] no obtain r1 where
      1: "binary_Read64 bs = Inr (WTimestamp entry, r1)"
         "strict_prefix r1 (le_bytes 4 ?kl @ (WKey entry @ le_bytes 4 ?vl @ WValue entry))"
      by (auto simp: readWALBody_def)
    from binary_Read32_strict_prefix [OF 1(2)] no 1(1) obtain r2 where
      2: "binary_Read32 r1 = Inr (?kl, r2)"
         "strict_prefix r2 (WKey entry @ (le_bytes 4 ?vl @ WValue entry))"
      by (auto simp: readWALBody_def)
    from ReadFull_strict_prefix [OF 2(2), of "unat ?kl"] uk no 1(1) 2(1) obtain r3 where
      3: "ReadFull (unat ?kl) r2 = Inr (WKey entry, r3)"
         "strict_prefix r3 (le_bytes 4 ?vl @ (WValue entry @ []))"
      by (auto simp: readWALBody_def)
    from binary_Read32_strict_prefix [OF 3(2)] no 1(1) 2(1) 3(1) obtain r4 where
      4: "binary_Read32 r3 = Inr (?vl, r4)" "strict_prefix r4 (WValue entry @ [])"
      by (auto simp: readWALBody_def)
    from ReadFull_strict_prefix [OF 4(2), of "unat ?vl"] uv no 1(1) 2(1) 3(1) 4(1)
    show False
      by (auto simp: readWALBody_def)
  qed
qed

lemma replayLoop_truncated:
  assumes "wfWALEntry entry" "strict_prefix p (walRecord entry)" "p \<noteq> []"
  shows "\<exists>err. replayLoop p acc = Inl err"
proof -
  from assms(2,3) obtain p' where p: "p = OpType entry # p'" "strict_prefix p' (tl (walRecord entry))"
    by (cases p) (auto simp: walRecord_def)
  from readWALBody_truncated [OF assms(1) p(2)] obtain err where
    "readWALBody (OpType entry) p' = Inl err" by blast
  then show ?thesis
    unfolding p(1) by (simp add: replayLoop_Cons)
qed

lemma readSSTBody_fields:
  assumes "length k < 2 ^ 32" "length v < 2 ^ 32"
  shows "readSSTBody (d # le_bytes 4 (word_of_nat (length k) :: 32 word) @ k
       @ le_bytes 4 (word_of_nat (length v) :: 32 word) @ v @ rest) = Inr ((d, k, v), rest)"
  using assms
  by (simp add: readSSTBody_def ReadByte_def binary_Read32_append ReadFull_append unat_len32)

lemma read_sstRecord:
  assumes "wfEntry entry"
  shows "binary_Read64 (sstRecord entry @ rest) =
           Inr (Timestamp entry, drop 8 (sstRecord entry) @ rest) \<and>
         readSSTBody (drop 8 (sstRecord entry) @ rest) =
           Inr ((if Deleted entry then 1 else 0, Key entry, Value entry), rest)"
proof -
  have "sstRecord entry @ rest = le_bytes 8 (Timestamp entry) @ (drop 8 (sstRecord entry) @ rest)"
    by (simp add: sstRecord_def)
  then have 1: "binary_Read64 (sstRecord entry @ rest) =
      Inr (Timestamp entry, drop 8 (sstRecord entry) @ rest)"
    by (simp only: binary_Read64_append)
  have "drop 8 (sstRecord entry) @ rest = (if Deleted entry then 1 else 0) #
      le_bytes 4 (word_of_nat (length (Key entry)) :: 32 word) @ Key entry
       @ le_bytes 4 (word_of_nat (length (Value entry)) :: 32 word) @ Value entry @ rest"
    by (simp add: sstRecord_def)
  then have 2: "readSSTBody (drop 8 (sstRecord entry) @ rest) =
      Inr ((if Deleted entry then 1 else 0, Key entry, Value entry), rest)"
    using assms by (simp only: readSSTBody_fields wfEntry_def)
  from 1 2 show ?thesis by simp
qed

lemma scanSST_record:
  assumes "wfEntry entry"
  shows "scanSST key (sstRecord entry @ rest) =
     (if Key entry = key then (if Deleted entry then Inr None else Inr (Some (Value entry)))
      else if Key entry > key then Inr None
      else scanSST key rest)"
  by (subst scanSST.simps) (simp add: read_sstRecord [OF assms])

lemma readEntries_record:
  assumes "wfEntry entry"
  shows "readEntries (sstRecord entry @ rest) acc = readEntries rest (acc @ [entry])"
proof -
  have "\<lparr>Key = Key entry, Value = Value entry, Timestamp = Timestamp entry,
      Deleted = ((if Deleted entry then 1 else 0 :: byte) = 1)\<rparr> = entry"
    by (cases entry) simp
  then show ?thesis
    by (subst readEntries.simps) (simp only: read_sstRecord [OF assms] sum.case prod.case)
qed

lemma scanSST_Nil: "scanSST key [] = Inr None"
  by (subst scanSST.simps) (simp add: binary_Read64_def ReadFull_def)

lemma readEntries_Nil: "readEntries [] acc = Inr acc"
  by (subst readEntries.simps) (simp add: binary_Read64_def ReadFull_def)

lemma readEntries_records:
  assumes "\<forall>entry \<in> set entries. wfEntry entry"
  shows "readEntries (concat (map sstRecord entries) @ rest) acc = readEntries rest (acc @ entries)"
  using assms
proof (induction entries arbitrary: acc)
  case Nil
  then show ?case by simp
next
  case (Cons entry entries)
  then show ?case by (simp add: readEntries_record)
qed


section \<open>Put, Get and Delete on any engine\<close>

lemma Get_state: "snd (Get e key) = e\<lparr>stats := (stats e)\<lparr>Reads := Reads (stats e) + 1\<rparr>\<rparr>"
  by (simp add: Get_def Let_def split: option.splits sum.splits)

lemma Get_result:
  "fst (Get e key) = (case lookup e key of Inl err \<Rightarrow> Inl (SSTLookupFailed err) | Inr r \<Rightarrow> Inr r)"
  by (simp add: Get_def lookup_def Let_def split: option.splits sum.splits)

lemma MemTable_Put_tick: "snd (MemTable_Put m key val c) = tick c"
  by (simp add: MemTable_Put_def Let_def)

lemma MemTable_Put_data:
  "data (fst (MemTable_Put m key val c)) =
     AList.update key \<lparr>Key = key, Value = val, Timestamp = UnixNano c, Deleted = False\<rparr> (data m)"
  by (simp add: MemTable_Put_def Let_def)

lemma MemTable_Get_Put: "MemTable_Get (fst (MemTable_Put m key val c)) key = Some val"
  by (simp add: MemTable_Get_def MemTable_Put_data update_conv')

lemma getImmutable_append:
  "getImmutable (mts @ [m]) key =
     (case getImmutable mts key of Some v \<Rightarrow> Some v | None \<Rightarrow> MemTable_Get m key)"
  by (induction mts) (simp_all split: option.splits)

lemma MemTable_Get_New: "MemTable_Get (NewMemTable mx) key = None"
  by (simp add: MemTable_Get_def NewMemTable_def)

lemma Put_ok_state:
  assumes "length key \<le> 100 * 1024" "werr (wal e) = None"
  obtains w where "werr w = None"
    "wal_content w = wal_content (wal e) @
       walRecord \<lparr>OpType = OpTypePut, WKey = key, WValue = val, WTimestamp = UnixNano (clock e)\<rparr>"
    "Put e key val =
       (None,
        let m = fst (MemTable_Put (memtable e) key val (tick (clock e)));
            e1 = e\<lparr>wal := w, memtable := m, clock := tick (tick (clock e)),
                   stats := (stats e)\<lparr>Writes := Writes (stats e) + 1, MemTableSize := msize m\<rparr>\<rparr>
        in if IsFull m then rotateMemTable e1 else e1)"
proof -
  obtain w where w: "Append (wal e) \<lparr>OpType = OpTypePut, WKey = key, WValue = val,
      WTimestamp = UnixNano (clock e)\<rparr> = (None, w)" "werr w = None"
    "wal_content w = wal_content (wal e) @
       walRecord \<lparr>OpType = OpTypePut, WKey = key, WValue = val, WTimestamp = UnixNano (clock e)\<rparr>"
    using Append_ok [OF assms(2)] by blast
  have "Put e key val =
       (None,
        let m = fst (MemTable_Put (memtable e) key val (tick (clock e)));
            e1 = e\<lparr>wal := w, memtable := m, clock := tick (tick (clock e)),
                   stats := (stats e)\<lparr>Writes := Writes (stats e) + 1, MemTableSize := msize m\<rparr>\<rparr>
        in if IsFull m then rotateMemTable e1 else e1)"
    using assms(1) w(1)
    by (simp add: Put_def Let_def MemTable_Put_tick case_prod_beta)
  with w(2,3) show ?thesis using that by blast
qed

lemma Put_then_lookup:
  assumes "length key \<le> 100 * 1024" "werr (wal e) = None"
    "getImmutable (immutableMemtables e) key = None"
  shows "lookup (snd (Put e key val)) key = Inr (Some val)"
proof -
  obtain w where "Put e key val =
       (None,
        let m = fst (MemTable_Put (memtable e) key val (tick (clock e)));
            e1 = e\<lparr>wal := w, memtable := m, clock := tick (tick (clock e)),
                   stats := (stats e)\<lparr>Writes := Writes (stats e) + 1, MemTableSize := msize m\<rparr>\<rparr>
        in if IsFull m then rotateMemTable e1 else e1)"
    using Put_ok_state [OF assms(1,2)] by metis
  then show ?thesis
    using assms(3)
    by (simp add: Let_def lookup_def rotateMemTable_def MemTable_Get_Put getImmutable_append
        MemTable_Get_New)
qed

lemma Put_stats:
  assumes "length key \<le> 100 * 1024" "werr (wal e) = None"
  shows "Writes (stats (snd (Put e key val))) = Writes (stats e) + 1"
    "Reads (stats (snd (Put e key val))) = Reads (stats e)"
    "Deletes (stats (snd (Put e key val))) = Deletes (stats e)"
    "werr (wal (snd (Put e key val))) = None"
proof -
  obtain w where w: "werr w = None" and "Put e key val =
       (None,
        let m = fst (MemTable_Put (memtable e) key val (tick (clock e)));
            e1 = e\<lparr>wal := w, memtable := m, clock := tick (tick (clock e)),
                   stats := (stats e)\<lparr>Writes := Writes (stats e) + 1, MemTableSize := msize m\<rparr>\<rparr>
        in if IsFull m then rotateMemTable e1 else e1)"
    using Put_ok_state [OF assms(1,2)] by metis
  then have s: "snd (Put e key val) = (let m = fst (MemTable_Put (memtable e) key val (tick (clock e)));
            e1 = e\<lparr>wal := w, memtable := m, clock := tick (tick (clock e)),
                   stats := (stats e)\<lparr>Writes := Writes (stats e) + 1, MemTableSize := msize m\<rparr>\<rparr>
        in if IsFull m then rotateMemTable e1 else e1)" by simp
  show "Writes (stats (snd (Put e key val))) = Writes (stats e) + 1"
    by (simp add: s Let_def rotateMemTable_def)
  show "Reads (stats (snd (Put e key val))) = Reads (stats e)"
    by (simp add: s Let_def rotateMemTable_def)
  show "Deletes (stats (snd (Put e key val))) = Deletes (stats e)"
    by (simp add: s Let_def rotateMemTable_def)
  show "werr (wal (snd (Put e key val))) = None"
    using w by (simp add: s Let_def rotateMemTable_def)
qed

lemma Delete_present_stats:
  assumes "lookup e key = Inr (Some v)" "werr (wal e) = None"
  shows "stats (snd (Delete e key)) =
     (stats e)\<lparr>Reads := Reads (stats e) + 1, Deletes := Deletes (stats e) + 1\<rparr>"
proof -
  let ?e1 = "e\<lparr>stats := (stats e)\<lparr>Reads := Reads (stats e) + 1\<rparr>\<rparr>"
  have g: "Get e key = (Inr (Some v), ?e1)"
    using assms(1) Get_result [of e key] Get_state [of e key] by (metis prod.collapse sum.simps(6))
  have "werr (wal ?e1) = None" using assms(2) by simp
  then obtain w where w: "Append (wal ?e1) \<lparr>OpType = OpTypeDelete, WKey = key, WValue = [],
      WTimestamp = UnixNano (clock ?e1)\<rparr> = (None, w)"
    using Append_ok by blast
  show ?thesis
    using g w
    by (simp add: Delete_def Let_def rotateMemTable_def case_prod_beta)
qed

lemma lookup_stats [simp]: "lookup (e\<lparr>stats := s\<rparr>) key = lookup e key"
  by (simp add: lookup_def cong: option.case_cong)

lemma update_not_Nil: "AList.update k v al \<noteq> []"
  by (cases al) simp_all

lemma Put_wal_and_entry:
  assumes "length key \<le> 100 * 1024" "werr (wal e) = None"
  shows "wal_content (wal (snd (Put e key val))) = wal_content (wal e) @
           walRecord \<lparr>OpType = OpTypePut, WKey = key, WValue = val, WTimestamp = UnixNano (clock e)\<rparr> \<and>
         map_of (data (putTable (snd (Put e key val)))) key =
           Some \<lparr>Key = key, Value = val, Timestamp = UnixNano (tick (clock e)), Deleted = False\<rparr>"
proof -
  obtain w where w: "wal_content w = wal_content (wal e) @
       walRecord \<lparr>OpType = OpTypePut, WKey = key, WValue = val, WTimestamp = UnixNano (clock e)\<rparr>"
    and "Put e key val =
       (None,
        let m = fst (MemTable_Put (memtable e) key val (tick (clock e)));
            e1 = e\<lparr>wal := w, memtable := m, clock := tick (tick (clock e)),
                   stats := (stats e)\<lparr>Writes := Writes (stats e) + 1, MemTableSize := msize m\<rparr>\<rparr>
        in if IsFull m then rotateMemTable e1 else e1)"
    using Put_ok_state [OF assms] by metis
  then have s: "snd (Put e key val) =
       (let m = fst (MemTable_Put (memtable e) key val (tick (clock e)));
            e1 = e\<lparr>wal := w, memtable := m, clock := tick (tick (clock e)),
                   stats := (stats e)\<lparr>Writes := Writes (stats e) + 1, MemTableSize := msize m\<rparr>\<rparr>
        in if IsFull m then rotateMemTable e1 else e1)" by simp
  have 1: "wal (snd (Put e key val)) = w"
    by (simp add: s Let_def rotateMemTable_def)
  have 2: "putTable (snd (Put e key val)) = fst (MemTable_Put (memtable e) key val (tick (clock e)))"
    by (simp add: s Let_def rotateMemTable_def putTable_def NewMemTable_def MemTable_Put_data
        update_not_Nil)
  show ?thesis
    by (simp add: 1 2 w MemTable_Put_data update_conv')
qed

section \<open>Put: the bound on the key size\<close>

text \<open>
  C9. A put with a key of exactly 100 KiB (102400 bytes) succeeds, given that the WAL
  writer has no error: it returns no error, the WAL has the put record appended and the
  MemTable that took the put returns the value. A put with a key of 100 KiB + 1 bytes
  returns the error \<^verbatim>\<open>key too large\<close> and leaves the engine as it was: no WAL record, no
  change of the MemTable.
\<close>

theorem put_key_size_boundary:
  "(length key = 100 * 1024 \<and> werr (wal e) = None \<longrightarrow>
      fst (Put e key val) = None \<and>
      wal_content (wal (snd (Put e key val))) = wal_content (wal e) @
        walRecord \<lparr>OpType = OpTypePut, WKey = key, WValue = val, WTimestamp = UnixNano (clock e)\<rparr> \<and>
      MemTable_Get (putTable (snd (Put e key val))) key = Some val) \<and>
   (length key = 100 * 1024 + 1 \<longrightarrow>
      Put e key val = (Some (KeyTooLarge (100 * 1024 + 1)), e))"
proof (intro conjI impI)
  assume a: "length key = 100 * 1024 \<and> werr (wal e) = None"
  then obtain w' where w': "Append (wal e) \<lparr>OpType = OpTypePut, WKey = key, WValue = val,
                         WTimestamp = UnixNano (clock e)\<rparr> = (None, w')"
    using Append_ok by blast
  show "fst (Put e key val) = None"
    using a w' by (simp add: Put_def Let_def split: prod.splits)
next
  assume a: "length key = 100 * 1024 \<and> werr (wal e) = None"
  then have l: "length key \<le> 100 * 1024" and w: "werr (wal e) = None" by simp_all
  from Put_wal_and_entry [OF l w, of val]
  show "wal_content (wal (snd (Put e key val))) = wal_content (wal e) @
        walRecord \<lparr>OpType = OpTypePut, WKey = key, WValue = val, WTimestamp = UnixNano (clock e)\<rparr>"
    by (rule conjunct1)
next
  assume a: "length key = 100 * 1024 \<and> werr (wal e) = None"
  then have l: "length key \<le> 100 * 1024" and w: "werr (wal e) = None" by simp_all
  from Put_wal_and_entry [OF l w, of val]
  show "MemTable_Get (putTable (snd (Put e key val))) key = Some val"
    by (simp add: MemTable_Get_def)
next
  assume "length key = 100 * 1024 + 1"
  then show "Put e key val = (Some (KeyTooLarge (100 * 1024 + 1)), e)" by (simp add: Put_def)
qed

theorem put_key_size_boundary_witness:
  "fst (Put (emptyEngine 67108864 clk) (replicate (100 * 1024) 0x61) val_v1) = None \<and>
   MemTable_Get (putTable (snd (Put (emptyEngine 67108864 clk) (replicate (100 * 1024) 0x61) val_v1)))
     (replicate (100 * 1024) 0x61) = Some val_v1 \<and>
   Put (emptyEngine 67108864 clk) (replicate (100 * 1024 + 1) 0x61) val_v1
     = (Some (KeyTooLarge (100 * 1024 + 1)), emptyEngine 67108864 clk)"
  using put_key_size_boundary [of "replicate (100 * 1024) 0x61" "emptyEngine 67108864 clk" val_v1]
    put_key_size_boundary [of "replicate (100 * 1024 + 1) 0x61" "emptyEngine 67108864 clk" val_v1]
  by (simp add: emptyEngine_def NewWAL_def)

section \<open>Evaluating the operations on the example inputs\<close>

lemma wf_examples: "wfWALEntry wal_put_k" "wfWALEntry wal_put_a"
  by (simp_all add: wfWALEntry_def wal_put_k_def wal_put_a_def key_k_def key_a_def val_v1_def val_v2_def)

lemma take19: "take 19 (walRecord wal_put_a) = butlast (walRecord wal_put_a)"
  by (simp add: walRecord_def wal_put_a_def key_a_def val_v2_def butlast_append)

lemma cut_prefix: "strict_prefix (take 19 (walRecord wal_put_a)) (walRecord wal_put_a)"
  "take 19 (walRecord wal_put_a) \<noteq> []"
  by (simp_all add: strict_prefix_def take_is_prefix length_walRecord wal_put_a_def key_a_def val_v2_def walRecord_def)

lemma replay_cut: "replayLoop (take 19 (walRecord wal_put_a)) acc = Inl ErrUnexpectedEOF"
  by (simp add: walRecord_def wal_put_a_def key_a_def val_v2_def replayLoop_Cons readWALBody_def
     binary_Read64_append binary_Read32_append  ReadFull_def unat_len32 OpTypePut_def)


lemmas eval_defs = emptyEngine_def NewMemTable_def NewWAL_def NewSSTManager_empty_def Stats0_def
  Put_def Get_def Delete_def Append_small length_walRecord bufSize_def MemTable_Put_def
  MemTable_Get_def MemTable_Delete_def IsFull_def rotateMemTable_def SSTManager_Get_def
  UnixNano_def tick_def Let_def OpTypePut_def OpTypeDelete_def clk_def
  key_k_def key_a_def val_v1_def val_v2_def val_b_def

lemma Get_empty: "fst (Get (emptyEngine 67108864 clk) key_k) = Inr None"
  by (simp add: eval_defs)

section \<open>WAL replay and a truncated trailing record\<close>

lemma Replay_records:
  assumes "\<forall>entry \<in> set entries. wfWALEntry entry"
  shows "Replay (NewWAL (concat (map walRecord entries))) = Inr entries"
  using replayLoop_records [OF assms, of "[]" "[]"]
  by (simp add: Replay_def NewWAL_def replayLoop_Nil)

lemma Replay_truncated:
  assumes "\<forall>entry \<in> set entries. wfWALEntry entry" "wfWALEntry torn"
    "strict_prefix p (walRecord torn)" "p \<noteq> []"
  shows "\<exists>err. Replay (NewWAL (concat (map walRecord entries) @ p)) = Inl err"
  using replayLoop_records [OF assms(1), of p "[]"] replayLoop_truncated [OF assms(2,3,4), of entries]
  by (simp add: Replay_def NewWAL_def)

lemma NewEngine_recovery_failed:
  "Replay (NewWAL content) = Inl err \<Longrightarrow> NewEngine mx content sm c = Inl (RecoveryFailed err)"
  by (simp add: NewEngine_def recover_def)

lemma NewEngine_started:
  "Replay (NewWAL content) = Inr entries \<Longrightarrow> \<exists>e. NewEngine mx content sm c = Inr e"
  by (simp add: NewEngine_def recover_def)

text \<open>
  C3, as the code has it. When the WAL file ends at a record boundary, replay yields
  every record and the engine starts. When the file ends inside a record (a non-empty
  proper prefix of a record follows the complete ones), \<^verbatim>\<open>WAL.Replay\<close> returns the error of
  the failed read and no entries, and \<^verbatim>\<open>NewEngine\<close> fails with \<^verbatim>\<open>recovery failed\<close>: only
  \<^verbatim>\<open>io.EOF\<close> on the opType byte is taken as the end of the log.
\<close>

theorem replay_truncated_tail:
  assumes "\<forall>entry \<in> set entries. wfWALEntry entry" "wfWALEntry torn"
    "strict_prefix p (walRecord torn)" "p \<noteq> []"
  shows "Replay (NewWAL (concat (map walRecord entries))) = Inr entries \<and>
         (\<exists>e. NewEngine mx (concat (map walRecord entries)) sm c = Inr e) \<and>
         (\<exists>err. Replay (NewWAL (concat (map walRecord entries) @ p)) = Inl err \<and>
                NewEngine mx (concat (map walRecord entries) @ p) sm c = Inl (RecoveryFailed err))"
proof -
  have 1: "Replay (NewWAL (concat (map walRecord entries))) = Inr entries"
    using assms(1) by (rule Replay_records)
  from Replay_truncated [OF assms] obtain err where
    2: "Replay (NewWAL (concat (map walRecord entries) @ p)) = Inl err" by blast
  show ?thesis
    using 1 2 NewEngine_started [OF 1] NewEngine_recovery_failed [OF 2] by blast
qed

theorem replay_truncated_tail_witness:
  "Replay (NewWAL (concat (map walRecord [wal_put_k]))) = Inr [wal_put_k] \<and>
   (\<exists>e. NewEngine 67108864 (concat (map walRecord [wal_put_k])) NewSSTManager_empty clk = Inr e) \<and>
   (\<exists>err. Replay (NewWAL (concat (map walRecord [wal_put_k]) @ take 19 (walRecord wal_put_a))) = Inl err \<and>
      NewEngine 67108864 (concat (map walRecord [wal_put_k]) @ take 19 (walRecord wal_put_a))
        NewSSTManager_empty clk = Inl (RecoveryFailed err))"
  using replay_truncated_tail [of "[wal_put_k]" wal_put_a "take 19 (walRecord wal_put_a)"
      67108864 NewSSTManager_empty clk] wf_examples cut_prefix
  by simp

text \<open>
  C3 as stated fails: a log of one complete put record and a second one cut one byte
  short makes replay return \<^verbatim>\<open>io.ErrUnexpectedEOF\<close>, and the engine does not start.
\<close>

theorem replay_truncated_tail_is_error:
  "strict_prefix (take 19 (walRecord wal_put_a)) (walRecord wal_put_a) \<and>
   Replay (NewWAL (walRecord wal_put_k @ take 19 (walRecord wal_put_a))) = Inl ErrUnexpectedEOF \<and>
   NewEngine 67108864 (walRecord wal_put_k @ take 19 (walRecord wal_put_a)) NewSSTManager_empty clk
     = Inl (RecoveryFailed ErrUnexpectedEOF)"
proof -
  have "Replay (NewWAL (walRecord wal_put_k @ take 19 (walRecord wal_put_a))) = Inl ErrUnexpectedEOF"
    by (simp add: Replay_def NewWAL_def replayLoop_record [OF wf_examples(1)] replay_cut)
  then show ?thesis
    using cut_prefix(1) by (simp add: NewEngine_recovery_failed)
qed

section \<open>Delete of an absent key\<close>

text \<open>
  C8, as the code has it. For a key that \<^verbatim>\<open>Get\<close> reports absent, \<^verbatim>\<open>Delete\<close> returns
  false, writes no WAL record (the WAL and its size are unchanged) and creates no
  tombstone (MemTables and segments are unchanged); the engine afterwards differs from
  the one before in the reads counter only, which the probe through \<^verbatim>\<open>Get\<close> has
  incremented by one.
\<close>

theorem delete_absent_key:
  assumes "fst (Get e key) = Inr None"
  shows "Delete e key = (Inr False, e\<lparr>stats := (stats e)\<lparr>Reads := Reads (stats e) + 1\<rparr>\<rparr>) \<and>
         wal (snd (Delete e key)) = wal e \<and>
         WAL_Size (wal (snd (Delete e key))) = WAL_Size (wal e) \<and>
         memtable (snd (Delete e key)) = memtable e \<and>
         immutableMemtables (snd (Delete e key)) = immutableMemtables e \<and>
         sstManager (snd (Delete e key)) = sstManager e"
proof -
  have "Get e key = (Inr None, e\<lparr>stats := (stats e)\<lparr>Reads := Reads (stats e) + 1\<rparr>\<rparr>)"
    using assms Get_state [of e key] by (metis prod.collapse)
  then have "Delete e key = (Inr False, e\<lparr>stats := (stats e)\<lparr>Reads := Reads (stats e) + 1\<rparr>\<rparr>)"
    by (simp add: Delete_def)
  then show ?thesis by simp
qed

theorem delete_absent_key_witness:
  "fst (Get (emptyEngine 67108864 clk) key_k) = Inr None \<and>
   Delete (emptyEngine 67108864 clk) key_k =
     (Inr False, (emptyEngine 67108864 clk)\<lparr>stats := Stats0\<lparr>Reads := 1\<rparr>\<rparr>)"
  using delete_absent_key [of "emptyEngine 67108864 clk" key_k] Get_empty
  by (simp add: emptyEngine_def Stats0_def)

text \<open>
  C8 as stated (``changes no state'') fails: the delete of an absent key on the empty
  engine moves the reads counter from 0 to 1.
\<close>

theorem delete_absent_key_counts_a_read:
  "fst (Get (emptyEngine 67108864 clk) key_k) = Inr None \<and>
   snd (Delete (emptyEngine 67108864 clk) key_k) \<noteq> emptyEngine 67108864 clk \<and>
   Reads (stats (emptyEngine 67108864 clk)) = 0 \<and>
   Reads (stats (snd (Delete (emptyEngine 67108864 clk) key_k))) = 1"
proof -
  have 1: "Reads (stats (snd (Delete (emptyEngine 67108864 clk) key_k))) = 1"
    by (simp add: eval_defs)
  have 0: "Reads (stats (emptyEngine 67108864 clk)) = 0"
    by (simp add: emptyEngine_def Stats0_def)
  from 0 1 have "snd (Delete (emptyEngine 67108864 clk) key_k) \<noteq> emptyEngine 67108864 clk"
    by (metis zero_neq_one)
  with Get_empty 0 1 show ?thesis by simp
qed

section \<open>The counters after write, read, read, delete\<close>

lemma statusScenario_counters:
  assumes "length k \<le> 100 * 1024"
  shows "Writes (statusScenario mx c k v) = 1 \<and> Reads (statusScenario mx c k v) = 3 \<and>
         Deletes (statusScenario mx c k v) = 1"
proof -
  let ?e0 = "emptyEngine mx c"
  let ?e1 = "snd (Put ?e0 k v)"
  let ?e2 = "snd (Get ?e1 k)"
  let ?e3 = "snd (Get ?e2 k)"
  let ?e4 = "snd (Delete ?e3 k)"
  have w0: "werr (wal ?e0) = None" by (simp add: emptyEngine_def NewWAL_def)
  have i0: "getImmutable (immutableMemtables ?e0) k = None" by (simp add: emptyEngine_def)
  have s0: "stats ?e0 = Stats0" by (simp add: emptyEngine_def)
  note p = Put_stats [OF assms w0, of v]
  have l1: "lookup ?e1 k = Inr (Some v)" using assms w0 i0 by (rule Put_then_lookup)
  have e3: "?e3 = ?e1\<lparr>stats := (stats ?e1)\<lparr>Reads := Reads (stats ?e1) + 2\<rparr>\<rparr>"
    by (simp add: Get_state)
  have l3: "lookup ?e3 k = Inr (Some v)" using l1 by (simp add: e3)
  have w3: "werr (wal ?e3) = None" using p(4) by (simp add: e3)
  have "stats ?e4 = (stats ?e3)\<lparr>Reads := Reads (stats ?e3) + 1, Deletes := Deletes (stats ?e3) + 1\<rparr>"
    using l3 w3 by (rule Delete_present_stats)
  then have "Writes (stats ?e4) = 1 \<and> Reads (stats ?e4) = 3 \<and> Deletes (stats ?e4) = 1"
    using p(1,2,3) s0 by (simp add: e3 Stats0_def)
  then show ?thesis by (simp add: statusScenario_def GetStats_def Let_def)
qed

text \<open>
  C4, as the code has it. From the empty engine, write k|v, read k, read k, delete k
  leaves writes=1, reads=3, deletes=1: the delete probes the key through \<^verbatim>\<open>Engine.Get\<close>,
  which counts as a read.
\<close>

theorem status_counters_after_scenario:
  assumes "length k \<le> 100 * 1024"
  shows "Writes (statusScenario mx c k v) = 1 \<and> Reads (statusScenario mx c k v) = 3 \<and>
         Deletes (statusScenario mx c k v) = 1"
  using assms by (rule statusScenario_counters)

theorem status_counters_after_scenario_witness:
  "Writes (statusScenario 67108864 clk key_k val_v1) = 1 \<and>
   Reads (statusScenario 67108864 clk key_k val_v1) = 3 \<and>
   Deletes (statusScenario 67108864 clk key_k val_v1) = 1"
  using status_counters_after_scenario [of key_k 67108864 clk val_v1]
  by (simp add: key_k_def)

text \<open>C4 as stated (reads=2) fails for the key \<^verbatim>\<open>k\<close> and the value \<^verbatim>\<open>v1\<close>.\<close>

theorem status_counters_reads_not_2:
  "\<not> (Writes (statusScenario 67108864 clk key_k val_v1) = 1 \<and>
      Reads (statusScenario 67108864 clk key_k val_v1) = 2 \<and>
      Deletes (statusScenario 67108864 clk key_k val_v1) = 1)"
  using statusScenario_counters [of key_k 67108864 clk val_v1]
  by (simp add: key_k_def)

section \<open>Where the character class of a key is checked\<close>

lemma validKeyLoop_all: "validKeyLoop key = (\<forall>ch \<in> set key. validKeyChar ch)"
  by (induction key) auto

text \<open>
  C5, as the code has it. \<^verbatim>\<open>Engine.Put\<close> checks the size of the key only: a key of at
  most 100 KiB is accepted whatever its characters (given a WAL writer without error),
  a longer key is rejected with no change of the engine. The character class is checked
  by \<^verbatim>\<open>isValidKey\<close> of the command parser, which is false for every key with a character
  outside the class.
\<close>

theorem put_checks_key_size_only:
  "(length key \<le> 100 * 1024 \<and> werr (wal e) = None \<longrightarrow> fst (Put e key val) = None) \<and>
   (length key > 100 * 1024 \<longrightarrow> Put e key val = (Some (KeyTooLarge (length key)), e)) \<and>
   ((\<exists>ch \<in> set key. \<not> validKeyChar ch) \<longrightarrow> \<not> isValidKey key)"
proof (intro conjI impI)
  assume a: "length key \<le> 100 * 1024 \<and> werr (wal e) = None"
  then obtain w where "Put e key val = (None, let m = fst (MemTable_Put (memtable e) key val (tick (clock e)));
            e1 = e\<lparr>wal := w, memtable := m, clock := tick (tick (clock e)),
                   stats := (stats e)\<lparr>Writes := Writes (stats e) + 1, MemTableSize := msize m\<rparr>\<rparr>
        in if IsFull m then rotateMemTable e1 else e1)"
    using Put_ok_state [of key e val] by metis
  then show "fst (Put e key val) = None" by simp
next
  assume "length key > 100 * 1024"
  then show "Put e key val = (Some (KeyTooLarge (length key)), e)" by (simp add: Put_def)
next
  assume "\<exists>ch \<in> set key. \<not> validKeyChar ch"
  then show "\<not> isValidKey key" by (auto simp: isValidKey_def validKeyLoop_all)
qed

theorem put_checks_key_size_only_witness:
  "fst (Put (emptyEngine 67108864 clk) key_with_space val_v1) = None \<and>
   Put (emptyEngine 67108864 clk) (replicate 102401 0x61) val_v1
     = (Some (KeyTooLarge 102401), emptyEngine 67108864 clk) \<and>
   \<not> isValidKey key_with_space"
proof -
  have "\<exists>ch \<in> set key_with_space. \<not> validKeyChar ch"
    by (simp add: key_with_space_def validKeyChar_def)
  then show ?thesis
    using put_checks_key_size_only [of key_with_space "emptyEngine 67108864 clk" val_v1]
      put_checks_key_size_only [of "replicate 102401 0x61" "emptyEngine 67108864 clk" val_v1]
    by (simp add: key_with_space_def emptyEngine_def NewWAL_def)
qed

text \<open>
  C5 as stated fails: the engine's put takes the key \<^verbatim>\<open>a b\<close>, whose space is outside
  the class, and the value can be read back.
\<close>

theorem put_accepts_key_outside_class:
  "\<not> validKeyChar 0x20 \<and> 0x20 \<in> set key_with_space \<and>
   fst (Put (emptyEngine 67108864 clk) key_with_space val_v1) = None \<and>
   fst (Get (snd (Put (emptyEngine 67108864 clk) key_with_space val_v1)) key_with_space)
     = Inr (Some val_v1)"
  by (simp add: validKeyChar_def key_with_space_def eval_defs)


section \<open>The timestamps of a put\<close>

text \<open>
  C6, as the code has it. \<^verbatim>\<open>Engine.Put\<close> reads the clock for the WAL record, and
  \<^verbatim>\<open>MemTable.Put\<close> reads it again for the entry: the WAL record carries the first
  reading, the MemTable entry the second. The two timestamps are equal only when the
  two readings are.
\<close>

theorem put_timestamps:
  assumes "length key \<le> 100 * 1024" "werr (wal e) = None"
  shows "wal_content (wal (snd (Put e key val))) = wal_content (wal e) @
           walRecord \<lparr>OpType = OpTypePut, WKey = key, WValue = val, WTimestamp = UnixNano (clock e)\<rparr> \<and>
         map_of (data (putTable (snd (Put e key val)))) key =
           Some \<lparr>Key = key, Value = val, Timestamp = UnixNano (tick (clock e)), Deleted = False\<rparr>"
  using assms by (rule Put_wal_and_entry)

theorem put_timestamps_witness:
  "wal_content (wal (snd (Put (emptyEngine 67108864 clk) key_k val_v1))) =
     walRecord \<lparr>OpType = OpTypePut, WKey = key_k, WValue = val_v1, WTimestamp = 0\<rparr> \<and>
   map_of (data (putTable (snd (Put (emptyEngine 67108864 clk) key_k val_v1)))) key_k =
     Some \<lparr>Key = key_k, Value = val_v1, Timestamp = 1, Deleted = False\<rparr>"
  using put_timestamps [of key_k "emptyEngine 67108864 clk" val_v1]
  by (simp add: emptyEngine_def NewWAL_def wal_content_def UnixNano_def tick_def clk_def key_k_def)

text \<open>
  C6 as stated fails: with a clock that reads 0 and then 1, replay of the WAL gives the
  put the timestamp 0 and the MemTable entry has the timestamp 1.
\<close>

theorem put_timestamps_differ:
  "Replay (NewWAL (wal_content (wal (snd (Put (emptyEngine 67108864 clk) key_k val_v1))))) =
     Inr [\<lparr>OpType = OpTypePut, WKey = key_k, WValue = val_v1, WTimestamp = 0\<rparr>] \<and>
   map_of (data (memtable (snd (Put (emptyEngine 67108864 clk) key_k val_v1)))) key_k =
     Some \<lparr>Key = key_k, Value = val_v1, Timestamp = 1, Deleted = False\<rparr> \<and>
   WTimestamp \<lparr>OpType = OpTypePut, WKey = key_k, WValue = val_v1, WTimestamp = 0\<rparr>
     \<noteq> Timestamp \<lparr>Key = key_k, Value = val_v1, Timestamp = 1, Deleted = False\<rparr>"
proof -
  have wf: "wfWALEntry \<lparr>OpType = OpTypePut, WKey = key_k, WValue = val_v1, WTimestamp = 0\<rparr>"
    by (simp add: wfWALEntry_def key_k_def val_v1_def)
  have c: "wal_content (wal (snd (Put (emptyEngine 67108864 clk) key_k val_v1))) =
     concat (map walRecord [\<lparr>OpType = OpTypePut, WKey = key_k, WValue = val_v1, WTimestamp = 0\<rparr>])"
    using Put_wal_and_entry [of key_k "emptyEngine 67108864 clk" val_v1]
    by (simp add: emptyEngine_def NewWAL_def wal_content_def UnixNano_def tick_def clk_def key_k_def)
  have r: "Replay (NewWAL (wal_content (wal (snd (Put (emptyEngine 67108864 clk) key_k val_v1))))) =
     Inr [\<lparr>OpType = OpTypePut, WKey = key_k, WValue = val_v1, WTimestamp = 0\<rparr>]"
    unfolding c by (rule Replay_records) (simp add: wf)
  have m: "map_of (data (memtable (snd (Put (emptyEngine 67108864 clk) key_k val_v1)))) key_k =
     Some \<lparr>Key = key_k, Value = val_v1, Timestamp = 1, Deleted = False\<rparr>"
    by (simp add: eval_defs)
  from r m show ?thesis by simp
qed

section \<open>Prefix scan\<close>

lemma update_same_fst_snd:
  "map snd vm = map fst vm \<Longrightarrow> map snd (AList.update v v vm) = map fst (AList.update v v vm)"
  by (induction vm) auto

lemma addValues_inv:
  assumes "distinct (map fst vm)" "map snd vm = map fst vm"
  shows "distinct (map fst (fold (\<lambda>v vm. AList.update v v vm) vals vm)) \<and>
         map snd (fold (\<lambda>v vm. AList.update v v vm) vals vm)
           = map fst (fold (\<lambda>v vm. AList.update v v vm) vals vm) \<and>
         set (map fst (fold (\<lambda>v vm. AList.update v v vm) vals vm)) = set (map fst vm) \<union> set vals"
  using assms
proof (induction vals arbitrary: vm)
  case Nil
  then show ?case by simp
next
  case (Cons v vals)
  have d: "distinct (map fst (AList.update v v vm))" using Cons.prems(1) by (rule distinct_update)
  have f: "map snd (AList.update v v vm) = map fst (AList.update v v vm)"
    using Cons.prems(2) by (rule update_same_fst_snd)
  have s: "set (map fst (AList.update v v vm)) = insert v (set (map fst vm))"
    by (auto simp: update_keys)
  from Cons.IH [OF d f] s show ?case by auto
qed

lemma addTables_inv:
  assumes "distinct (map fst vm)" "map snd vm = map fst vm"
  shows "distinct (map fst (fold (\<lambda>mt vm. fold (\<lambda>v vm. AList.update v v vm) (f mt) vm) mts vm)) \<and>
         map snd (fold (\<lambda>mt vm. fold (\<lambda>v vm. AList.update v v vm) (f mt) vm) mts vm)
           = map fst (fold (\<lambda>mt vm. fold (\<lambda>v vm. AList.update v v vm) (f mt) vm) mts vm) \<and>
         set (map fst (fold (\<lambda>mt vm. fold (\<lambda>v vm. AList.update v v vm) (f mt) vm) mts vm))
           = set (map fst vm) \<union> (\<Union>mt \<in> set mts. set (f mt))"
  using assms
proof (induction mts arbitrary: vm)
  case Nil
  then show ?case by simp
next
  case (Cons mt mts)
  note a = addValues_inv [OF Cons.prems, of "f mt"]
  from a have 1: "distinct (map fst (fold (\<lambda>v vm. AList.update v v vm) (f mt) vm))" by blast
  from a have 2: "map snd (fold (\<lambda>v vm. AList.update v v vm) (f mt) vm)
      = map fst (fold (\<lambda>v vm. AList.update v v vm) (f mt) vm)" by blast
  from a have 3: "set (map fst (fold (\<lambda>v vm. AList.update v v vm) (f mt) vm))
      = set (map fst vm) \<union> set (f mt)" by blast
  from Cons.IH [OF 1 2] 3 show ?case by auto
qed

lemma PrefixScan_distinct_set:
  "distinct (PrefixScan e pre) \<and>
   set (PrefixScan e pre) = (\<Union>mt \<in> set (memtable e # immutableMemtables e). set (MemTable_PrefixScan mt pre))"
proof -
  let ?f = "\<lambda>mt. MemTable_PrefixScan mt pre"
  let ?vm = "fold (\<lambda>mt vm. fold (\<lambda>v vm. AList.update v v vm) (?f mt) vm)
      (memtable e # immutableMemtables e) []"
  have p: "PrefixScan e pre = map snd ?vm"
    by (simp add: PrefixScan_def)
  have "distinct (map fst ([] :: (bytes \<times> bytes) list))" "map snd ([] :: (bytes \<times> bytes) list) = map fst []"
    by simp_all
  from addTables_inv [OF this, of ?f "memtable e # immutableMemtables e"]
  have "distinct (map fst ?vm)" "map snd ?vm = map fst ?vm"
    "set (map fst ?vm) = (\<Union>mt \<in> set (memtable e # immutableMemtables e). set (?f mt))"
    by simp_all
  then show ?thesis unfolding p by metis
qed

lemma distinct_count_list_1: "distinct xs \<Longrightarrow> x \<in> set xs \<Longrightarrow> count_list xs x = 1"
  by (induction xs) auto

lemma MemTable_PrefixScan_mem:
  assumes "(k, entry) \<in> set (data mt)" "\<not> Deleted entry"
    "length k \<ge> length pre" "take (length pre) k = pre"
  shows "Value entry \<in> set (MemTable_PrefixScan mt pre)"
  using assms by (force simp: MemTable_PrefixScan_def)

text \<open>
  C10. \<^verbatim>\<open>PrefixScan\<close> removes duplicates by the content of the value, not by key: when
  two different keys with the prefix, neither a tombstone, in the same or in different
  MemTables (active or immutable), have the same value, the result holds that value
  once; no value occurs twice in a result.
\<close>

theorem prefix_scan_dedup_by_value:
  assumes "mt1 \<in> set (memtable e # immutableMemtables e)"
    "mt2 \<in> set (memtable e # immutableMemtables e)"
    "(k1, entry1) \<in> set (data mt1)" "(k2, entry2) \<in> set (data mt2)" "k1 \<noteq> k2"
    "\<not> Deleted entry1" "\<not> Deleted entry2"
    "length k1 \<ge> length pre" "take (length pre) k1 = pre"
    "length k2 \<ge> length pre" "take (length pre) k2 = pre"
    "Value entry1 = v" "Value entry2 = v"
  shows "distinct (PrefixScan e pre) \<and> count_list (PrefixScan e pre) v = 1"
proof -
  have "v \<in> set (MemTable_PrefixScan mt1 pre)"
    using MemTable_PrefixScan_mem [OF assms(3,6,8,9)] assms(12) by simp
  with assms(1) have "v \<in> set (PrefixScan e pre)"
    using PrefixScan_distinct_set [of e pre] by blast
  then show ?thesis
    using PrefixScan_distinct_set [of e pre] by (simp add: distinct_count_list_1)
qed

lemma scanEngine_tables:
  "memtable scanEngine = NewMemTable 4 \<and>
   immutableMemtables scanEngine =
     [\<lparr>data = [(key_ua, \<lparr>Key = key_ua, Value = val_b, Timestamp = 1, Deleted = False\<rparr>)],
       msize = 4, maxSize = 4\<rparr>,
      \<lparr>data = [(key_ub, \<lparr>Key = key_ub, Value = val_b, Timestamp = 3, Deleted = False\<rparr>)],
       msize = 4, maxSize = 4\<rparr>]"
  by (simp add: scanEngine_def eval_defs key_ua_def key_ub_def)

theorem prefix_scan_dedup_by_value_witness:
  "distinct (PrefixScan scanEngine pre_u) \<and> count_list (PrefixScan scanEngine pre_u) val_b = 1"
  using prefix_scan_dedup_by_value [of
      "\<lparr>data = [(key_ua, \<lparr>Key = key_ua, Value = val_b, Timestamp = 1, Deleted = False\<rparr>)],
       msize = 4, maxSize = 4\<rparr>" scanEngine
      "\<lparr>data = [(key_ub, \<lparr>Key = key_ub, Value = val_b, Timestamp = 3, Deleted = False\<rparr>)],
       msize = 4, maxSize = 4\<rparr>" key_ua
      "\<lparr>Key = key_ua, Value = val_b, Timestamp = 1, Deleted = False\<rparr>" key_ub
      "\<lparr>Key = key_ub, Value = val_b, Timestamp = 3, Deleted = False\<rparr>" pre_u val_b]
  by (simp add: scanEngine_tables key_ua_def key_ub_def pre_u_def)

lemma scan_example: "PrefixScan scanEngine pre_u = [val_b]"
  by (simp add: PrefixScan_def scanEngine_tables MemTable_PrefixScan_def NewMemTable_def
      key_ua_def key_ub_def pre_u_def)

section \<open>Delete of a key that lives outside the active MemTable\<close>

lemmas flush_defs = flusher_def flush_def Flush_def Entries_def Truncate_def GetAllSSTables_def

lemma wf_small [simp]:
  "length k < 100 \<Longrightarrow> length v < 100 \<Longrightarrow> wfEntry \<lparr>Key = k, Value = v, Timestamp = t, Deleted = d\<rparr>"
  by (simp add: wfEntry_def)

lemma delEngine_state:
  "memtable delEngine = NewMemTable 3 \<and>
   immutableMemtables delEngine =
     [\<lparr>data = [(key_k, \<lparr>Key = key_k, Value = val_v1, Timestamp = 1, Deleted = False\<rparr>)],
       msize = 3, maxSize = 3\<rparr>] \<and> flushCh delEngine"
  by (simp add: delEngine_def eval_defs)

lemma del1: "fst (Get delEngine key_k) = Inr (Some val_v1)"
  by (simp add: delEngine_def eval_defs)

lemma del2: "fst (Delete delEngine key_k) = Inr False"
  by (simp add: delEngine_def eval_defs)

lemma del3: "map_of (data (memtable (snd (Delete delEngine key_k)))) key_k = None"
  by (simp add: delEngine_def eval_defs)

lemma del4: "fst (Get (snd (Delete delEngine key_k)) key_k) = Inr (Some val_v1)"
  by (simp add: delEngine_def eval_defs)

lemma del5: "wal_content (wal (snd (Delete delEngine key_k))) =
    walRecord \<lparr>OpType = OpTypePut, WKey = key_k, WValue = val_v1, WTimestamp = 0\<rparr> @
    walRecord \<lparr>OpType = OpTypeDelete, WKey = key_k, WValue = [], WTimestamp = 2\<rparr>"
  by (simp add: delEngine_def eval_defs wal_content_def)

lemma tm1: "map_of (data (memtable tombInMemTable)) key_k =
    Some \<lparr>Key = key_k, Value = val_v2, Timestamp = 7, Deleted = True\<rparr>"
  by (simp add: tombInMemTable_def eval_defs)

lemma tm2: "fst (Get tombInMemTable key_k) = Inr (Some val_v1)"
  by (simp add: tombInMemTable_def eval_defs)


lemma firstSegment_state:
  "firstSegment = \<lparr>memtable = NewMemTable 4, immutableMemtables = [],
      sstManager = \<lparr>sstables = [\<lparr>ID = 1, Index = [(key_a, 0)], MinKey = key_a, MaxKey = key_k, Size = 39\<rparr>],
         nextID = 2, files = (\<lambda>i. None)(1 \<mapsto> sstRecord rec_a @ sstRecord rec_k)\<rparr>,
      wal = NewWAL [], MemTableMaxSize = 4, flushCh = False,
      stats = Stats0\<lparr>Writes := 2, MemTableSize := 5, Flushes := 1, SSTCount := 1\<rparr>,
      clock = (\<lambda>n. 4 + word_of_nat n)\<rparr>"
  by (simp add: firstSegment_def eval_defs flush_defs rec_a_def rec_k_def)

lemma tombInSegment_state:
  "memtable tombInSegment = NewMemTable 4 \<and> immutableMemtables tombInSegment = [] \<and>
   sstables (sstManager tombInSegment) =
     [\<lparr>ID = 2, Index = [(key_a, 0)], MinKey = key_a, MaxKey = key_k, Size = 39\<rparr>,
      \<lparr>ID = 1, Index = [(key_a, 0)], MinKey = key_a, MaxKey = key_k, Size = 39\<rparr>] \<and>
   files (sstManager tombInSegment) 2 = Some (sstRecord rec_a2 @ sstRecord rec_k_tomb) \<and>
   files (sstManager tombInSegment) 1 = Some (sstRecord rec_a @ sstRecord rec_k)"
  by (simp add: tombInSegment_def firstSegment_state eval_defs flush_defs rec_a2_def rec_k_tomb_def)

lemma wf_recs [simp]: "wfEntry rec_a" "wfEntry rec_k" "wfEntry rec_a2" "wfEntry rec_k_tomb"
  by (simp_all add: wfEntry_def rec_a_def rec_k_def rec_a2_def rec_k_tomb_def key_a_def key_k_def
      val_b_def val_v1_def val_v2_def)

lemma scanSST_last:
  assumes "wfEntry entry"
  shows "scanSST key (sstRecord entry) =
     (if Key entry = key then (if Deleted entry then Inr None else Inr (Some (Value entry)))
      else Inr None)"
  using scanSST_record [OF assms, of key "[]"] by (simp add: scanSST_Nil)

lemma rec_fields [simp]:
  "Key rec_a = key_a" "Value rec_a = val_b" "Deleted rec_a = False"
  "Key rec_k = key_k" "Value rec_k = val_v1" "Deleted rec_k = False"
  "Key rec_a2 = key_a" "Value rec_a2 = val_b" "Deleted rec_a2 = False"
  "Key rec_k_tomb = key_k" "Value rec_k_tomb = val_v2" "Deleted rec_k_tomb = True"
  by (simp_all add: rec_a_def rec_k_def rec_a2_def rec_k_tomb_def)

lemma key_order [simp]: "key_a < key_k" "key_a \<noteq> key_k" "key_k \<noteq> key_a" "\<not> key_k < key_a"
  by (simp_all add: key_a_def key_k_def)

lemma ts1: "getFromSST (sstManager tombInSegment) (hd (sstables (sstManager tombInSegment))) key_k = Inr None"
  by (simp add: tombInSegment_state getFromSST_def startOffsetOf_def scanSST_record scanSST_last)

lemma ts2: "fst (Get tombInSegment key_k) = Inr (Some val_v1)"
  by (simp add: Get_def tombInSegment_state SSTManager_Get_def NewMemTable_def MemTable_Get_def
      getFromSST_def startOffsetOf_def scanSST_record scanSST_last Let_def)

lemma ts3: "readAllEntries (sstManager tombInSegment) (hd (sstables (sstManager tombInSegment)))
    = Inr [rec_a2, rec_k_tomb]"
  using readEntries_records [of "[rec_a2, rec_k_tomb]" "[]" "[]"]
  by (simp add: tombInSegment_state readAllEntries_def readEntries_Nil)


lemma del6: "fst (Get (flusher delEngine) key_k) = Inr (Some val_v1) \<and>
    fst (Delete (flusher delEngine) key_k) = Inr False \<and>
    fst (Get (snd (Delete (flusher delEngine) key_k)) key_k) = Inr (Some val_v1)"
proof -
  have f: "flusher delEngine = \<lparr>memtable = NewMemTable 3, immutableMemtables = [],
      sstManager = \<lparr>sstables = [\<lparr>ID = 1, Index = [(key_k, 0)], MinKey = key_k, MaxKey = key_k, Size = 20\<rparr>],
         nextID = 2, files = (\<lambda>i. None)(1 \<mapsto> sstRecord rec_k)\<rparr>,
      wal = NewWAL [], MemTableMaxSize = 3, flushCh = False,
      stats = Stats0\<lparr>Writes := 1, MemTableSize := 3, Flushes := 1, SSTCount := 1\<rparr>,
      clock = (\<lambda>n. 2 + word_of_nat n)\<rparr>"
    by (simp add: delEngine_def eval_defs flush_defs rec_k_def)
  show ?thesis
    by (simp add: f eval_defs getFromSST_def startOffsetOf_def scanSST_last)
qed

text \<open>
  C2 does not hold on the code. After a put of \<^verbatim>\<open>k\<close> that fills the MemTable (the
  MemTable is rotated, and later flushed), \<^verbatim>\<open>Get\<close> returns the value, and \<^verbatim>\<open>Delete\<close>
  appends the delete record to the WAL but returns false, creates no tombstone, and
  the value stays readable: \<^verbatim>\<open>MemTable.Delete\<close> marks an entry of the active MemTable
  only, and there is none.
\<close>

theorem delete_misses_key_outside_active_memtable:
  "fst (Get delEngine key_k) = Inr (Some val_v1) \<and>
   fst (Delete delEngine key_k) = Inr False \<and>
   map_of (data (memtable (snd (Delete delEngine key_k)))) key_k = None \<and>
   fst (Get (snd (Delete delEngine key_k)) key_k) = Inr (Some val_v1) \<and>
   wal_content (wal (snd (Delete delEngine key_k))) =
     walRecord \<lparr>OpType = OpTypePut, WKey = key_k, WValue = val_v1, WTimestamp = 0\<rparr> @
     walRecord \<lparr>OpType = OpTypeDelete, WKey = key_k, WValue = [], WTimestamp = 2\<rparr> \<and>
   fst (Get (flusher delEngine) key_k) = Inr (Some val_v1) \<and>
   fst (Delete (flusher delEngine) key_k) = Inr False \<and>
   fst (Get (snd (Delete (flusher delEngine) key_k)) key_k) = Inr (Some val_v1)"
  using del1 del2 del3 del4 del5 del6 by simp

section \<open>A tombstone above an older version\<close>

text \<open>
  C1 does not hold on the code. With the tombstone of \<^verbatim>\<open>k\<close> in the active MemTable and
  the older value \<^verbatim>\<open>v1\<close> in an immutable MemTable, \<^verbatim>\<open>Get\<close> returns \<^verbatim>\<open>v1\<close>; with the
  tombstone in the newest segment and \<^verbatim>\<open>v1\<close> in the older segment, \<^verbatim>\<open>getFromSST\<close> reports
  the tombstone as not found and \<^verbatim>\<open>Get\<close> again returns \<^verbatim>\<open>v1\<close>.
\<close>

theorem tombstone_does_not_end_lookup:
  "map_of (data (memtable tombInMemTable)) key_k =
     Some \<lparr>Key = key_k, Value = val_v2, Timestamp = 7, Deleted = True\<rparr> \<and>
   fst (Get tombInMemTable key_k) = Inr (Some val_v1) \<and>
   readAllEntries (sstManager tombInSegment) (hd (sstables (sstManager tombInSegment)))
     = Inr [rec_a2, rec_k_tomb] \<and>
   getFromSST (sstManager tombInSegment) (hd (sstables (sstManager tombInSegment))) key_k = Inr None \<and>
   fst (Get tombInSegment key_k) = Inr (Some val_v1)"
  using tm1 tm2 ts1 ts2 ts3 by simp

section \<open>Compaction\<close>

lemma readAllEntries_file:
  assumes "files sm (ID sst) = Some (concat (map sstRecord entries))"
    "\<forall>entry \<in> set entries. wfEntry entry"
  shows "readAllEntries sm sst = Inr entries"
  using readEntries_records [OF assms(2), of "[]" "[]"] assms(1)
  by (simp add: readAllEntries_def readEntries_Nil)

lemma mergeLoop_files:
  assumes "\<forall>sst \<in> set ssts. files sm (ID sst) = Some (concat (map sstRecord (ents sst))) \<and>
      (\<forall>entry \<in> set (ents sst). wfEntry entry)"
  shows "mergeLoop sm ssts entryMap = Inr (fold mergeEntry (concat (map ents ssts)) entryMap)"
  using assms
proof (induction ssts arbitrary: entryMap)
  case Nil
  then show ?case by simp
next
  case (Cons sst ssts)
  then have "readAllEntries sm sst = Inr (ents sst)"
    by (intro readAllEntries_file) simp_all
  with Cons show ?case by simp
qed

text \<open>
  The invariant of the merge map over the entries seen so far: one entry for each key
  seen, under its own key, with a timestamp no entry seen of that key exceeds.
\<close>

definition mergeInv :: "(bytes \<times> Entry) list \<Rightarrow> Entry set \<Rightarrow> bool" where
  "mergeInv entryMap seen =
     (distinct (map fst entryMap) \<and>
      (\<forall>k r. map_of entryMap k = Some r \<longrightarrow> Key r = k \<and> r \<in> seen \<and>
          (\<forall>r' \<in> seen. Key r' = k \<longrightarrow> sint (Timestamp r') \<le> sint (Timestamp r))) \<and>
      (\<forall>r \<in> seen. map_of entryMap (Key r) \<noteq> None))"

lemma mergeEntry_map_of:
  "map_of (mergeEntry entry entryMap) =
     (case map_of entryMap (Key entry) of
        None \<Rightarrow> (map_of entryMap)(Key entry \<mapsto> entry)
      | Some existing \<Rightarrow>
          if sint (Timestamp entry) > sint (Timestamp existing)
          then (map_of entryMap)(Key entry \<mapsto> entry) else map_of entryMap)"
  by (simp add: mergeEntry_def update_conv' split: option.splits)

lemma mergeEntry_distinct:
  "distinct (map fst entryMap) \<Longrightarrow> distinct (map fst (mergeEntry entry entryMap))"
  by (simp add: mergeEntry_def distinct_update split: option.splits)

lemma mergeEntry_cases:
  assumes "map_of (mergeEntry entry entryMap) k = Some r"
  shows "map_of entryMap k = Some r \<or> (r = entry \<and> k = Key entry)"
  using assms
  by (auto simp: mergeEntry_map_of split: option.splits if_splits)

lemma mergeEntry_keeps:
  assumes "map_of entryMap k = Some r"
  shows "map_of (mergeEntry entry entryMap) k = Some r \<or>
         (map_of (mergeEntry entry entryMap) k = Some entry \<and> k = Key entry \<and>
          sint (Timestamp r) < sint (Timestamp entry))"
  using assms
  by (auto simp: mergeEntry_map_of split: option.splits if_splits)

lemma mergeEntry_new:
  "\<exists>r. map_of (mergeEntry entry entryMap) (Key entry) = Some r \<and>
       sint (Timestamp entry) \<le> sint (Timestamp r)"
  by (auto simp: mergeEntry_map_of split: option.splits if_splits)

lemma mergeInv_step:
  assumes "mergeInv entryMap seen"
  shows "mergeInv (mergeEntry entry entryMap) (insert entry seen)"
proof -
  let ?m = "map_of entryMap" and ?m' = "map_of (mergeEntry entry entryMap)"
  from assms have d: "distinct (map fst entryMap)"
    and i1: "\<And>k r. ?m k = Some r \<Longrightarrow> Key r = k \<and> r \<in> seen"
    and i2: "\<And>k r r'. ?m k = Some r \<Longrightarrow> r' \<in> seen \<Longrightarrow> Key r' = k
               \<Longrightarrow> sint (Timestamp r') \<le> sint (Timestamp r)"
    and i3: "\<And>r. r \<in> seen \<Longrightarrow> ?m (Key r) \<noteq> None"
    unfolding mergeInv_def by blast+
  have d': "distinct (map fst (mergeEntry entry entryMap))"
    using d by (rule mergeEntry_distinct)
  have j1: "Key r = k \<and> r \<in> insert entry seen" if "?m' k = Some r" for k r
    using mergeEntry_cases [OF that] i1 by blast
  have j2: "sint (Timestamp r') \<le> sint (Timestamp r)"
    if h: "?m' k = Some r" "r' \<in> insert entry seen" "Key r' = k" for k r r'
  proof (cases "r' = entry")
    case True
    with h(3) have "k = Key entry" by simp
    with mergeEntry_new [of entry entryMap] h(1) True show ?thesis by simp
  next
    case False
    with h(2) have s: "r' \<in> seen" by simp
    from i3 [OF s] h(3) obtain r0 where r0: "?m k = Some r0" by auto
    from i2 [OF r0 s h(3)] have le: "sint (Timestamp r') \<le> sint (Timestamp r0)" .
    from mergeEntry_keeps [OF r0, of entry] h(1) le show ?thesis by auto
  qed
  have j3: "?m' (Key r) \<noteq> None" if "r \<in> insert entry seen" for r
  proof (cases "r = entry")
    case True
    with mergeEntry_new [of entry entryMap] show ?thesis by auto
  next
    case False
    with that have "r \<in> seen" by simp
    from i3 [OF this] obtain r0 where "?m (Key r) = Some r0" by auto
    from mergeEntry_keeps [OF this, of entry] show ?thesis by auto
  qed
  show ?thesis
    unfolding mergeInv_def using d' j1 j2 j3 by blast
qed

lemma mergeInv_fold:
  assumes "mergeInv entryMap seen"
  shows "mergeInv (fold mergeEntry entries entryMap) (seen \<union> set entries)"
  using assms
proof (induction entries arbitrary: entryMap seen)
  case Nil
  then show ?case by simp
next
  case (Cons entry entries)
  from mergeInv_step [OF Cons.prems, of entry]
  have "mergeInv (fold mergeEntry entries (mergeEntry entry entryMap)) (insert entry seen \<union> set entries)"
    by (rule Cons.IH)
  then show ?case by simp
qed

lemma mergeInv_empty: "mergeInv [] {}"
  by (simp add: mergeInv_def)


lemma mergeSSTs_files:
  assumes "\<forall>sst \<in> set ssts. files sm (ID sst) = Some (concat (map sstRecord (ents sst))) \<and>
      (\<forall>entry \<in> set (ents sst). wfEntry entry)"
  shows "mergeSSTs sm ssts = Inr (mergedOutput (concat (map ents ssts)))"
  by (simp add: mergeSSTs_def mergeLoop_files [OF assms] mergedOutput_def)

lemma merge_map:
  "mergeInv (fold mergeEntry entries []) (set entries)"
  using mergeInv_fold [OF mergeInv_empty, of entries] by simp

lemma mergeInv_mem:
  assumes "mergeInv entryMap seen" "(k, r) \<in> set entryMap"
  shows "Key r = k \<and> r \<in> seen \<and>
         (\<forall>r' \<in> seen. Key r' = k \<longrightarrow> sint (Timestamp r') \<le> sint (Timestamp r))"
proof -
  from assms have "map_of entryMap k = Some r" by (simp add: mergeInv_def)
  with assms(1) show ?thesis unfolding mergeInv_def by blast
qed

lemma mergeInv_keys:
  assumes "mergeInv entryMap seen"
  shows "map Key (map snd entryMap) = map fst entryMap"
  using mergeInv_mem [OF assms] by (auto simp: map_eq_conv)

lemma mergedOutput_sorted: "sorted (map Key (mergedOutput entries))"
  by (simp add: mergedOutput_def)

lemma mergedOutput_distinct: "distinct (map Key (mergedOutput entries))"
proof -
  let ?am = "fold mergeEntry entries []"
  have "distinct (map fst ?am)" using merge_map [of entries] by (simp add: mergeInv_def)
  then have "distinct (map Key (map snd ?am))"
    unfolding mergeInv_keys [OF merge_map] .
  then have "distinct (map Key (filter (\<lambda>entry. \<not> Deleted entry) (map snd ?am)))"
    by (rule distinct_map_filter)
  then show ?thesis
    by (simp add: mergedOutput_def distinct_map)
qed

lemma mergedOutput_mem:
  assumes "r \<in> set (mergedOutput entries)"
  shows "r \<in> set entries \<and> \<not> Deleted r \<and>
         (\<forall>r' \<in> set entries. Key r' = Key r \<longrightarrow> sint (Timestamp r') \<le> sint (Timestamp r))"
proof -
  from assms obtain k where "(k, r) \<in> set (fold mergeEntry entries [])" "\<not> Deleted r"
    by (auto simp: mergedOutput_def)
  with mergeInv_mem [OF merge_map this(1)] show ?thesis by blast
qed

lemma mergedOutput_missing:
  assumes "r \<in> set entries" "Key r \<notin> Key ` set (mergedOutput entries)"
  shows "\<exists>t \<in> set entries. Key t = Key r \<and> Deleted t \<and>
         (\<forall>r' \<in> set entries. Key r' = Key r \<longrightarrow> sint (Timestamp r') \<le> sint (Timestamp t))"
proof -
  let ?am = "fold mergeEntry entries []"
  from merge_map [of entries] assms(1) obtain t where t: "map_of ?am (Key r) = Some t"
    unfolding mergeInv_def by blast
  then have mem: "(Key r, t) \<in> set ?am" by (rule map_of_SomeD)
  note p = mergeInv_mem [OF merge_map mem]
  have "Deleted t"
  proof (rule ccontr)
    assume "\<not> Deleted t"
    with mem have "t \<in> set (mergedOutput entries)" by (force simp: mergedOutput_def)
    with p assms(2) show False by (metis imageI)
  qed
  with p show ?thesis by blast
qed

lemma writeEntries_out:
  "snd (snd (writeEntries entries i offset idx out)) = out @ concat (map sstRecord entries)"
  by (induction entries arbitrary: i offset idx out) (simp_all add: Let_def)

lemma Flush_Nil: "Flush sm [] = sm"
  by (simp add: Flush_def)

lemma Flush_Cons:
  assumes "entries \<noteq> []"
  shows "\<exists>new. ID new = nextID sm \<and> MinKey new = Key (hd (sort_key Key entries)) \<and>
           MaxKey new = Key (last (sort_key Key entries)) \<and>
           Flush sm entries =
             sm\<lparr>nextID := nextID sm + 1,
                files := (files sm)(nextID sm \<mapsto> concat (map sstRecord (sort_key Key entries))),
                sstables := new # sstables sm\<rparr>"
proof -
  obtain idx offset out where w: "writeEntries (sort_key Key entries) 0 0 [] [] = (idx, offset, out)"
    by (metis prod_cases3)
  with writeEntries_out [of "sort_key Key entries" 0 0 "[]" "[]"]
  have "out = concat (map sstRecord (sort_key Key entries))" by simp
  with assms w show ?thesis
    by (intro exI [of _ "\<lparr>ID = nextID sm, Index = idx, MinKey = Key (hd (sort_key Key entries)),
        MaxKey = Key (last (sort_key Key entries)), Size = offset\<rparr>"])
      (simp add: Flush_def Let_def)
qed

lemma filter_ID_absent: "i \<notin> ID ` set ssts \<Longrightarrow> filter (\<lambda>s. ID s \<noteq> i) ssts = ssts"
  by (induction ssts) auto

lemma removeByID_filter:
  "distinct (map ID ssts) \<Longrightarrow> removeByID i ssts = filter (\<lambda>s. ID s \<noteq> i) ssts"
  by (induction ssts) (auto simp: filter_ID_absent)

lemma RemoveSSTable_filter:
  assumes "distinct (map ID (sstables sm))"
  shows "sstables (RemoveSSTable sm sst) = filter (\<lambda>s. ID s \<noteq> ID sst) (sstables sm)"
proof (cases "ID sst \<in> set (map ID (sstables sm))")
  case True
  then show ?thesis using assms by (simp add: RemoveSSTable_def removeByID_filter)
next
  case False
  then have "filter (\<lambda>s. ID s \<noteq> ID sst) (sstables sm) = sstables sm"
    by (simp add: filter_ID_absent)
  with False show ?thesis by (simp add: RemoveSSTable_def)
qed

lemma RemoveSSTable_other:
  "nextID (RemoveSSTable sm sst) = nextID sm"
  "i \<noteq> ID sst \<Longrightarrow> files (RemoveSSTable sm sst) i = files sm i"
  "ID sst \<in> set (map ID (sstables sm)) \<Longrightarrow> files (RemoveSSTable sm sst) (ID sst) = None"
  by (simp_all add: RemoveSSTable_def)

lemma fold_Remove:
  assumes "distinct (map ID (sstables sm))" "distinct (map ID rs)"
    "ID ` set rs \<subseteq> ID ` set (sstables sm)"
  shows "sstables (fold (\<lambda>sst m. RemoveSSTable m sst) rs sm)
           = filter (\<lambda>s. ID s \<notin> ID ` set rs) (sstables sm) \<and>
         nextID (fold (\<lambda>sst m. RemoveSSTable m sst) rs sm) = nextID sm \<and>
         (\<forall>i. files (fold (\<lambda>sst m. RemoveSSTable m sst) rs sm) i
                = (if i \<in> ID ` set rs then None else files sm i))"
  using assms
proof (induction rs arbitrary: sm)
  case Nil
  then show ?case by simp
next
  case (Cons r rs)
  let ?sm1 = "RemoveSSTable sm r"
  have s1: "sstables ?sm1 = filter (\<lambda>s. ID s \<noteq> ID r) (sstables sm)"
    using Cons.prems(1) by (rule RemoveSSTable_filter)
  have d1: "distinct (map ID (sstables ?sm1))"
    unfolding s1 using Cons.prems(1) by (rule distinct_map_filter)
  have d2: "distinct (map ID rs)" using Cons.prems(2) by simp
  have sub: "ID ` set rs \<subseteq> ID ` set (sstables ?sm1)"
  proof
    fix i assume i: "i \<in> ID ` set rs"
    with Cons.prems(2) have "i \<noteq> ID r" by (metis distinct.simps(2) list.simps(9) list.set_map)
    moreover from i Cons.prems(3) obtain y where "y \<in> set (sstables sm)" "ID y = i" by auto
    ultimately show "i \<in> ID ` set (sstables ?sm1)" unfolding s1 by auto
  qed
  have rin: "ID r \<in> set (map ID (sstables sm))" using Cons.prems(3) by auto
  note ih = Cons.IH [OF d1 d2 sub]
  have a: "sstables (fold (\<lambda>sst m. RemoveSSTable m sst) (r # rs) sm)
      = filter (\<lambda>s. ID s \<notin> ID ` set (r # rs)) (sstables sm)"
    using ih by (simp add: s1 conj_commute)
  have b: "nextID (fold (\<lambda>sst m. RemoveSSTable m sst) (r # rs) sm) = nextID sm"
    using ih by (simp add: RemoveSSTable_other)
  have c: "files (fold (\<lambda>sst m. RemoveSSTable m sst) (r # rs) sm) i
      = (if i \<in> ID ` set (r # rs) then None else files sm i)" for i
    using ih RemoveSSTable_other(2) [of i r sm] RemoveSSTable_other(3) [OF rin]
    by (cases "i = ID r") auto
  from a b c show ?case by blast
qed


lemma filter_drop_IDs:
  assumes "distinct (map ID ssts)"
  shows "filter (\<lambda>s. ID s \<notin> ID ` set (drop k ssts)) ssts = take k ssts"
proof -
  let ?P = "\<lambda>s. ID s \<notin> ID ` set (drop k ssts)"
  have "distinct (map ID (take k ssts) @ map ID (drop k ssts))"
    using assms by (simp flip: map_append)
  then have disj: "ID ` set (take k ssts) \<inter> ID ` set (drop k ssts) = {}"
    by (simp only: distinct_append set_map)
  have 1: "filter ?P (take k ssts) = take k ssts"
    using disj by (auto simp: filter_id_conv)
  have 2: "filter ?P (drop k ssts) = []"
    by (auto simp: filter_empty_conv)
  have "filter ?P ssts = filter ?P (take k ssts @ drop k ssts)" by simp
  also have "\<dots> = take k ssts" by (simp only: filter_append 1 2 append_Nil2)
  finally show ?thesis .
qed

lemma compact_noop: "length (sstables sm) \<le> 4 \<Longrightarrow> compact sm = (None, sm)"
  by (simp add: compact_def GetAllSSTables_def)

lemma compact_merge:
  assumes n: "length (sstables sm) > 4"
    and d: "distinct (map ID (sstables sm))"
    and fresh: "\<forall>sst \<in> set (sstables sm). ID sst < nextID sm"
    and fs: "\<forall>sst \<in> set (drop (length (sstables sm) - 4) (sstables sm)).
        files sm (ID sst) = Some (concat (map sstRecord (ents sst))) \<and>
        (\<forall>entry \<in> set (ents sst). wfEntry entry)"
  shows "fst (compact sm) = None \<and>
    mergeSSTs sm (drop (length (sstables sm) - 4) (sstables sm))
      = Inr (mergedOutput (concat (map ents (drop (length (sstables sm) - 4) (sstables sm))))) \<and>
    (\<forall>sst \<in> set (drop (length (sstables sm) - 4) (sstables sm)).
        files (snd (compact sm)) (ID sst) = None) \<and>
    (if mergedOutput (concat (map ents (drop (length (sstables sm) - 4) (sstables sm)))) = []
     then sstables (snd (compact sm)) = take (length (sstables sm) - 4) (sstables sm)
     else \<exists>new. ID new = nextID sm \<and>
            sstables (snd (compact sm)) = new # take (length (sstables sm) - 4) (sstables sm) \<and>
            files (snd (compact sm)) (ID new) = Some (concat (map sstRecord
              (mergedOutput (concat (map ents (drop (length (sstables sm) - 4) (sstables sm))))))))"
proof -
  let ?ssts = "sstables sm"
  let ?k = "length ?ssts - 4"
  let ?toMerge = "drop ?k ?ssts"
  let ?merged = "mergedOutput (concat (map ents ?toMerge))"
  let ?rm = "\<lambda>m. fold (\<lambda>sst m. RemoveSSTable m sst) ?toMerge m"
  have ms: "mergeSSTs sm ?toMerge = Inr ?merged" using fs by (rule mergeSSTs_files)
  have c: "compact sm = (None, ?rm (Flush sm ?merged))"
    using n by (simp add: compact_def GetAllSSTables_def ms Let_def)
  have dt: "distinct (map ID ?toMerge)" using d by (simp add: distinct_drop flip: drop_map)
  have sub: "ID ` set ?toMerge \<subseteq> ID ` set ?ssts" by (auto dest: in_set_dropD)
  show ?thesis
  proof (cases "?merged = []")
    case True
    then have f: "Flush sm ?merged = sm" by (simp add: Flush_Nil)
    note r = fold_Remove [OF d dt sub]
    have "sstables (?rm sm) = take ?k ?ssts"
      using r filter_drop_IDs [OF d, of ?k] by simp
    moreover have "\<forall>sst \<in> set ?toMerge. files (?rm sm) (ID sst) = None"
      using r by simp
    ultimately show ?thesis using True ms by (simp add: c Flush_Nil)
  next
    case False
    from Flush_Cons [OF False, of sm] obtain new where new: "ID new = nextID sm"
      and f: "Flush sm ?merged =
             sm\<lparr>nextID := nextID sm + 1,
                files := (files sm)(nextID sm \<mapsto> concat (map sstRecord (sort_key Key ?merged))),
                sstables := new # sstables sm\<rparr>" by blast
    have srt: "sort_key Key ?merged = ?merged"
      using mergedOutput_sorted by (rule sort_key_id_if_sorted)
    let ?sm1 = "Flush sm ?merged"
    have s1: "sstables ?sm1 = new # ?ssts" by (simp add: f)
    have newfresh: "ID new \<notin> ID ` set ?ssts" using fresh new by auto
    have d1: "distinct (map ID (sstables ?sm1))" using d newfresh by (simp add: s1)
    have sub1: "ID ` set ?toMerge \<subseteq> ID ` set (sstables ?sm1)" using sub by (auto simp: s1)
    note r = fold_Remove [OF d1 dt sub1]
    have newkeep: "ID new \<notin> ID ` set ?toMerge" using newfresh sub by blast
    have a: "sstables (?rm ?sm1) = new # take ?k ?ssts"
      using r filter_drop_IDs [OF d, of ?k] newkeep by (simp add: s1)
    have b: "files (?rm ?sm1) (ID new) = Some (concat (map sstRecord ?merged))"
      using r newkeep by (simp add: f new srt)
    have e: "\<forall>sst \<in> set ?toMerge. files (?rm ?sm1) (ID sst) = None"
      using r by simp
    from a b e new show ?thesis using False ms by (simp add: c)
  qed
qed


text \<open>
  C7, as the code has it. A compaction cycle does nothing when there are at most 4
  segments. With more, and the files of the 4 oldest segments readable, it merges
  exactly those 4, keeping for every key one record with the highest timestamp and
  leaving out every key whose kept record is a tombstone, and removes the 4 source
  segments and their files; the segments that were not merged stay, in their order.
  When the merged output is not empty, one new segment that holds it is written and
  the count decreases by 3; when it is empty (every key's latest record is a
  tombstone), \<^verbatim>\<open>Flush\<close> returns without writing, and the count decreases by 4.
\<close>

theorem compaction_cycle:
  assumes "distinct (map ID (sstables sm))"
    and "\<forall>sst \<in> set (sstables sm). ID sst < nextID sm"
    and "\<forall>sst \<in> set (oldest4 sm).
        files sm (ID sst) = Some (concat (map sstRecord (ents sst))) \<and>
        (\<forall>entry \<in> set (ents sst). wfEntry entry)"
  shows "(length (sstables sm) \<le> 4 \<longrightarrow> compact sm = (None, sm)) \<and>
    (length (sstables sm) > 4 \<longrightarrow>
      (let records = concat (map ents (oldest4 sm));
           merged = mergedOutput records;
           sm' = snd (compact sm)
       in fst (compact sm) = None \<and>
          mergeSSTs sm (oldest4 sm) = Inr merged \<and>
          sorted (map Key merged) \<and> distinct (map Key merged) \<and>
          (\<forall>r \<in> set merged. r \<in> set records \<and> \<not> Deleted r \<and>
             (\<forall>r' \<in> set records. Key r' = Key r \<longrightarrow> sint (Timestamp r') \<le> sint (Timestamp r))) \<and>
          (\<forall>r \<in> set records. Key r \<notin> Key ` set merged \<longrightarrow>
             (\<exists>t \<in> set records. Key t = Key r \<and> Deleted t \<and>
                (\<forall>r' \<in> set records. Key r' = Key r \<longrightarrow> sint (Timestamp r') \<le> sint (Timestamp t)))) \<and>
          (\<forall>sst \<in> set (oldest4 sm). files sm' (ID sst) = None) \<and>
          (if merged = []
           then sstables sm' = take (length (sstables sm) - 4) (sstables sm) \<and>
                length (sstables sm') = length (sstables sm) - 4
           else (\<exists>new pre post. ID new \<notin> ID ` set (sstables sm) \<and>
                   sstables sm' = pre @ new # post \<and>
                   pre @ post = take (length (sstables sm) - 4) (sstables sm) \<and>
                   files sm' (ID new) = Some (concat (map sstRecord merged))) \<and>
                length (sstables sm') = length (sstables sm) - 3)))"
proof (intro conjI impI)
  assume "length (sstables sm) \<le> 4"
  then show "compact sm = (None, sm)" by (rule compact_noop)
next
  assume n: "4 < length (sstables sm)"
  let ?records = "concat (map ents (oldest4 sm))"
  let ?merged = "mergedOutput ?records"
  note m = compact_merge [OF n assms(1,2) assms(3) [unfolded oldest4_def], folded oldest4_def]
  have p3: "\<forall>r \<in> set ?merged. r \<in> set ?records \<and> \<not> Deleted r \<and>
      (\<forall>r' \<in> set ?records. Key r' = Key r \<longrightarrow> sint (Timestamp r') \<le> sint (Timestamp r))"
    using mergedOutput_mem by blast
  have p4: "\<forall>r \<in> set ?records. Key r \<notin> Key ` set ?merged \<longrightarrow>
      (\<exists>t \<in> set ?records. Key t = Key r \<and> Deleted t \<and>
         (\<forall>r' \<in> set ?records. Key r' = Key r \<longrightarrow> sint (Timestamp r') \<le> sint (Timestamp t)))"
    using mergedOutput_missing by blast
  have len: "(if ?merged = []
      then sstables (snd (compact sm)) = take (length (sstables sm) - 4) (sstables sm) \<and>
           length (sstables (snd (compact sm))) = length (sstables sm) - 4
      else (\<exists>new pre post. ID new \<notin> ID ` set (sstables sm) \<and>
              sstables (snd (compact sm)) = pre @ new # post \<and>
              pre @ post = take (length (sstables sm) - 4) (sstables sm) \<and>
              files (snd (compact sm)) (ID new) = Some (concat (map sstRecord ?merged))) \<and>
           length (sstables (snd (compact sm))) = length (sstables sm) - 3)"
  proof (cases "?merged = []")
    case True
    with m n show ?thesis by simp
  next
    case False
    with m obtain new where new: "ID new = nextID sm"
      "sstables (snd (compact sm)) = new # take (length (sstables sm) - 4) (sstables sm)"
      "files (snd (compact sm)) (ID new) = Some (concat (map sstRecord ?merged))"
      by auto
    from new(2) n have l: "length (sstables (snd (compact sm))) = length (sstables sm) - 3" by simp
    from new(1) assms(2) have fr: "ID new \<notin> ID ` set (sstables sm)" by auto
    have "sstables (snd (compact sm)) = [] @ new # take (length (sstables sm) - 4) (sstables sm) \<and>
        [] @ take (length (sstables sm) - 4) (sstables sm) = take (length (sstables sm) - 4) (sstables sm)"
      using new(2) by simp
    with fr new(3) have "\<exists>new pre post. ID new \<notin> ID ` set (sstables sm) \<and>
        sstables (snd (compact sm)) = pre @ new # post \<and>
        pre @ post = take (length (sstables sm) - 4) (sstables sm) \<and>
        files (snd (compact sm)) (ID new) = Some (concat (map sstRecord ?merged))"
      by blast
    with l False show ?thesis by simp
  qed
  show "let records = concat (map ents (oldest4 sm));
           merged = mergedOutput records;
           sm' = snd (compact sm)
       in fst (compact sm) = None \<and>
          mergeSSTs sm (oldest4 sm) = Inr merged \<and>
          sorted (map Key merged) \<and> distinct (map Key merged) \<and>
          (\<forall>r \<in> set merged. r \<in> set records \<and> \<not> Deleted r \<and>
             (\<forall>r' \<in> set records. Key r' = Key r \<longrightarrow> sint (Timestamp r') \<le> sint (Timestamp r))) \<and>
          (\<forall>r \<in> set records. Key r \<notin> Key ` set merged \<longrightarrow>
             (\<exists>t \<in> set records. Key t = Key r \<and> Deleted t \<and>
                (\<forall>r' \<in> set records. Key r' = Key r \<longrightarrow> sint (Timestamp r') \<le> sint (Timestamp t)))) \<and>
          (\<forall>sst \<in> set (oldest4 sm). files sm' (ID sst) = None) \<and>
          (if merged = []
           then sstables sm' = take (length (sstables sm) - 4) (sstables sm) \<and>
                length (sstables sm') = length (sstables sm) - 4
           else (\<exists>new pre post. ID new \<notin> ID ` set (sstables sm) \<and>
                   sstables sm' = pre @ new # post \<and>
                   pre @ post = take (length (sstables sm) - 4) (sstables sm) \<and>
                   files sm' (ID new) = Some (concat (map sstRecord merged))) \<and>
                length (sstables sm') = length (sstables sm) - 3)"
    unfolding Let_def
    using m p3 p4 len mergedOutput_sorted [of ?records] mergedOutput_distinct [of ?records]
    by (intro conjI) blast+
qed


lemma rec_fields2 [simp]:
  "Key rec_k3 = key_k" "Value rec_k3 = val_v2" "Deleted rec_k3 = False" "Timestamp rec_k3 = 11"
  "Key rec_a_tomb = key_a" "Value rec_a_tomb = val_b" "Deleted rec_a_tomb = True" "Timestamp rec_a_tomb = 13"
  "Key rec_k5 = key_k" "Value rec_k5 = val_b" "Deleted rec_k5 = False" "Timestamp rec_k5 = 15"
  "Timestamp rec_a = 3" "Timestamp rec_k = 1" "Timestamp rec_a2 = 9" "Timestamp rec_k_tomb = 7"
  by (simp_all add: rec_k3_def rec_a_tomb_def rec_k5_def rec_a_def rec_k_def rec_a2_def rec_k_tomb_def)

lemma wf_recs2 [simp]: "wfEntry rec_k3" "wfEntry rec_a_tomb" "wfEntry rec_k5"
  by (simp_all add: wfEntry_def key_a_def key_k_def val_b_def val_v2_def)

lemma key_le [simp]: "key_a \<le> key_k" "\<not> key_k \<le> key_a"
  by (simp_all add: key_a_def key_k_def)

lemma compactManager_state:
  "sstables compactManager =
     [\<lparr>ID = 5, Index = [(key_k, 0)], MinKey = key_k, MaxKey = key_k, Size = 19\<rparr>,
      \<lparr>ID = 4, Index = [(key_a, 0)], MinKey = key_a, MaxKey = key_a, Size = 19\<rparr>,
      \<lparr>ID = 3, Index = [(key_k, 0)], MinKey = key_k, MaxKey = key_k, Size = 20\<rparr>,
      \<lparr>ID = 2, Index = [(key_a, 0)], MinKey = key_a, MaxKey = key_k, Size = 39\<rparr>,
      \<lparr>ID = 1, Index = [(key_a, 0)], MinKey = key_a, MaxKey = key_k, Size = 39\<rparr>] \<and>
   nextID compactManager = 6 \<and>
   files compactManager 1 = Some (sstRecord rec_a @ sstRecord rec_k) \<and>
   files compactManager 2 = Some (sstRecord rec_a2 @ sstRecord rec_k_tomb) \<and>
   files compactManager 3 = Some (sstRecord rec_k3) \<and>
   files compactManager 4 = Some (sstRecord rec_a_tomb) \<and>
   files compactManager 5 = Some (sstRecord rec_k5)"
  by (simp add: compactManager_def Flush_def NewSSTManager_empty_def Let_def
      key_a_def key_k_def val_b_def val_v1_def val_v2_def)

lemma compact_records:
  "concat (map compactEnts (oldest4 compactManager))
     = [rec_a_tomb, rec_k3, rec_a2, rec_k_tomb, rec_a, rec_k]"
  by (simp add: oldest4_def compactManager_state compactEnts_def)

lemma compact_merged:
  "mergedOutput [rec_a_tomb, rec_k3, rec_a2, rec_k_tomb, rec_a, rec_k] = [rec_k3]"
  by (simp add: mergedOutput_def mergeEntry_def)


lemma first_session:
  "sstManager (snd (Close (snd (Delete (snd (Put (emptyEngine 67108864 clk) key_k val_v1)) key_k))))
     = Flush NewSSTManager_empty [rec_t3] \<and>
   wfile (wal (snd (Close (snd (Delete (snd (Put (emptyEngine 67108864 clk) key_k val_v1)) key_k)))))
     = tombWAL"
  by (simp add: Close_def eval_defs Entries_def bufio_Flush_def rec_t3_def tombWAL_def)

lemma later_session:
  "\<exists>e. NewEngine 67108864 tombWAL sm clk = Inr e \<and>
       sstManager (snd (Close e)) = Flush sm [rec_t1] \<and> wfile (wal (snd (Close e))) = tombWAL"
proof -
  let ?p = "\<lparr>OpType = OpTypePut, WKey = key_k, WValue = val_v1, WTimestamp = 0\<rparr>"
  let ?d = "\<lparr>OpType = OpTypeDelete, WKey = key_k, WValue = [], WTimestamp = 2\<rparr>"
  have "\<forall>entry \<in> set [?p, ?d]. wfWALEntry entry"
    by (simp add: wfWALEntry_def key_k_def val_v1_def)
  from Replay_records [OF this] have r: "Replay (NewWAL tombWAL) = Inr [?p, ?d]"
    by (simp add: tombWAL_def)
  show ?thesis
    by (simp add: NewEngine_def recover_def r [unfolded NewWAL_def] applyEntry_def Close_def
        Entries_def bufio_Flush_def NewWAL_def NewMemTable_def MemTable_Put_def MemTable_Delete_def UnixNano_def tick_def
        clk_def rec_t1_def OpTypePut_def OpTypeDelete_def Let_def)
qed

lemma rec_fields3 [simp]:
  "Key rec_t3 = key_k" "Value rec_t3 = val_v1" "Deleted rec_t3 = True" "Timestamp rec_t3 = 3"
  "Key rec_t1 = key_k" "Value rec_t1 = val_v1" "Deleted rec_t1 = True" "Timestamp rec_t1 = 1"
  by (simp_all add: rec_t3_def rec_t1_def)

lemma wf_recs3 [simp]: "wfEntry rec_t3" "wfEntry rec_t1"
  by (simp_all add: wfEntry_def key_k_def val_v1_def)

lemma tombManager_state:
  "sstables tombManager =
     [\<lparr>ID = 5, Index = [(key_k, 0)], MinKey = key_k, MaxKey = key_k, Size = 20\<rparr>,
      \<lparr>ID = 4, Index = [(key_k, 0)], MinKey = key_k, MaxKey = key_k, Size = 20\<rparr>,
      \<lparr>ID = 3, Index = [(key_k, 0)], MinKey = key_k, MaxKey = key_k, Size = 20\<rparr>,
      \<lparr>ID = 2, Index = [(key_k, 0)], MinKey = key_k, MaxKey = key_k, Size = 20\<rparr>,
      \<lparr>ID = 1, Index = [(key_k, 0)], MinKey = key_k, MaxKey = key_k, Size = 20\<rparr>] \<and>
   nextID tombManager = 6 \<and>
   files tombManager 1 = Some (sstRecord rec_t3) \<and>
   files tombManager 2 = Some (sstRecord rec_t1) \<and>
   files tombManager 3 = Some (sstRecord rec_t1) \<and>
   files tombManager 4 = Some (sstRecord rec_t1) \<and>
   files tombManager 5 = Some (sstRecord rec_t1)"
  by (simp add: tombManager_def Flush_def NewSSTManager_empty_def Let_def
      key_k_def val_v1_def)

lemma tomb_merged:
  "mergedOutput (concat (map tombEnts (drop (length (sstables tombManager) - 4) (sstables tombManager)))) = []"
  by (simp add: tombManager_state tombEnts_def mergedOutput_def mergeEntry_def)

lemma w_hyps:
  "distinct (map ID (sstables compactManager))"
  "\<forall>sst \<in> set (sstables compactManager). ID sst < nextID compactManager"
  "\<forall>sst \<in> set (oldest4 compactManager).
        files compactManager (ID sst) = Some (concat (map sstRecord (compactEnts sst))) \<and>
        (\<forall>entry \<in> set (compactEnts sst). wfEntry entry)"
  "length (sstables compactManager) > 4"
  by (simp_all add: oldest4_def compactManager_state compactEnts_def)

lemma w_hyps0:
  "distinct (map ID (sstables NewSSTManager_empty))"
  "\<forall>sst \<in> set (sstables NewSSTManager_empty). ID sst < nextID NewSSTManager_empty"
  "\<forall>sst \<in> set (oldest4 NewSSTManager_empty).
        files NewSSTManager_empty (ID sst) = Some (concat (map sstRecord (compactEnts sst))) \<and>
        (\<forall>entry \<in> set (compactEnts sst). wfEntry entry)"
  "length (sstables NewSSTManager_empty) \<le> 4"
  by (simp_all add: NewSSTManager_empty_def oldest4_def)

lemma w_take: "take (length (sstables compactManager) - 4) (sstables compactManager) =
   [\<lparr>ID = 5, Index = [(key_k, 0)], MinKey = key_k, MaxKey = key_k, Size = 19\<rparr>]"
  by (simp add: compactManager_state)


theorem compaction_cycle_witness:
  "compact NewSSTManager_empty = (None, NewSSTManager_empty) \<and>
   fst (compact compactManager) = None \<and>
   mergeSSTs compactManager (oldest4 compactManager) = Inr [rec_k3] \<and>
   (\<exists>new pre post. ID new \<notin> {5, 4, 3, 2, 1} \<and>
      sstables (snd (compact compactManager)) = pre @ new # post \<and>
      map ID (pre @ post) = [5] \<and>
      files (snd (compact compactManager)) (ID new) = Some (sstRecord rec_k3)) \<and>
   files (snd (compact compactManager)) 4 = None \<and>
   length (sstables (snd (compact compactManager))) = 2"
proof -
  note t = compaction_cycle [OF w_hyps(1,2,3)]
  note b = t [THEN conjunct2, THEN mp, OF w_hyps(4), unfolded Let_def compact_records compact_merged]
  note c1 = b [THEN conjunct1]
  note c2 = b [THEN conjunct2, THEN conjunct1]
  note c7 = b [THEN conjunct2, THEN conjunct2, THEN conjunct2, THEN conjunct2, THEN conjunct2,
      THEN conjunct2, THEN conjunct1]
  note c8 = b [THEN conjunct2, THEN conjunct2, THEN conjunct2, THEN conjunct2, THEN conjunct2,
      THEN conjunct2, THEN conjunct2]
  have ne: "[rec_k3] \<noteq> []" by simp
  from c8 ne have "\<exists>new pre post. ID new \<notin> ID ` set (sstables compactManager) \<and>
      sstables (snd (compact compactManager)) = pre @ new # post \<and>
      pre @ post = take (length (sstables compactManager) - 4) (sstables compactManager) \<and>
      files (snd (compact compactManager)) (ID new) = Some (concat (map sstRecord [rec_k3]))"
    by (simp only: if_False)
  then obtain new pre post where new: "ID new \<notin> ID ` set (sstables compactManager)"
      "sstables (snd (compact compactManager)) = pre @ new # post"
      "pre @ post = take (length (sstables compactManager) - 4) (sstables compactManager)"
      "files (snd (compact compactManager)) (ID new) = Some (concat (map sstRecord [rec_k3]))"
    by blast
  have i: "ID new \<notin> {5, 4, 3, 2, 1}" using new(1) by (simp add: compactManager_state)
  have r: "map ID (pre @ post) = [5]" by (simp only: new(3) w_take) simp
  have f: "files (snd (compact compactManager)) (ID new) = Some (sstRecord rec_k3)"
    using new(4) by simp
  from i new(2) r f have 5: "\<exists>new pre post. ID new \<notin> {5, 4, 3, 2, 1} \<and>
      sstables (snd (compact compactManager)) = pre @ new # post \<and>
      map ID (pre @ post) = [5] \<and>
      files (snd (compact compactManager)) (ID new) = Some (sstRecord rec_k3)"
    by (intro exI conjI)
  from c8 ne have "length (sstables (snd (compact compactManager)))
      = length (sstables compactManager) - 3"
    by (simp only: if_False)
  then have 8: "length (sstables (snd (compact compactManager))) = 2"
    by (simp add: compactManager_state)
  have 7: "files (snd (compact compactManager)) 4 = None"
    using c7 by (simp add: oldest4_def compactManager_state)
  have 0: "compact NewSSTManager_empty = (None, NewSSTManager_empty)"
    using compaction_cycle [OF w_hyps0(1,2,3), THEN conjunct1, THEN mp, OF w_hyps0(4)] .
  from 0 c1 c2 5 7 8 show ?thesis by (intro conjI)
qed


text \<open>
  C7 as stated fails: with five segments that hold only the tombstone of \<^verbatim>\<open>k\<close>, the cycle
  writes no segment and leaves one segment of five.
\<close>

theorem compaction_of_tombstones_writes_no_segment:
  "length (sstables tombManager) = 5 \<and> fst (compact tombManager) = None \<and>
   map ID (sstables (snd (compact tombManager))) = [5] \<and>
   length (sstables (snd (compact tombManager))) = 1"
proof -
  have n: "length (sstables tombManager) > 4" by (simp add: tombManager_state)
  have d: "distinct (map ID (sstables tombManager))" by (simp add: tombManager_state)
  have f: "\<forall>sst \<in> set (sstables tombManager). ID sst < nextID tombManager"
    by (simp add: tombManager_state)
  have fs: "\<forall>sst \<in> set (drop (length (sstables tombManager) - 4) (sstables tombManager)).
        files tombManager (ID sst) = Some (concat (map sstRecord (tombEnts sst))) \<and>
        (\<forall>entry \<in> set (tombEnts sst). wfEntry entry)"
    by (simp add: tombManager_state tombEnts_def)
  note m = compact_merge [OF n d f fs]
  from m have 1: "fst (compact tombManager) = None" by blast
  from m tomb_merged have 2: "sstables (snd (compact tombManager))
      = take (length (sstables tombManager) - 4) (sstables tombManager)" by simp
  show ?thesis using 1 by (simp add: 2 tombManager_state)
qed

text \<open>
  The last part of C7, that the latest value of every covered key remains readable, does
  not hold of the code. \<^verbatim>\<open>compact\<close> writes the merged records through \<^verbatim>\<open>Flush\<close>, which
  registers every segment as the newest one; the merged records are the oldest, and the
  lookup reads them before the newer segments that were not merged. In \<open>compactManager\<close>
  the newest segment holds \<^verbatim>\<open>k|b\<close>, and the lookup of \<^verbatim>\<open>k\<close> returns \<^verbatim>\<open>b\<close>; after the cycle
  it returns the merged, older \<^verbatim>\<open>v2\<close>.
\<close>

lemma compacted_state:
  "sstables (snd (compact compactManager)) =
     [\<lparr>ID = 6, Index = [(key_k, 0)], MinKey = key_k, MaxKey = key_k, Size = 20\<rparr>,
      \<lparr>ID = 5, Index = [(key_k, 0)], MinKey = key_k, MaxKey = key_k, Size = 19\<rparr>] \<and>
   files (snd (compact compactManager)) 6 = Some (sstRecord rec_k3) \<and>
   files (snd (compact compactManager)) 5 = Some (sstRecord rec_k5)"
proof -
  have m: "mergeSSTs compactManager (drop (length (sstables compactManager) - 4) (sstables compactManager))
      = Inr [rec_k3]"
    using mergeSSTs_files [OF w_hyps(3)]
    unfolding compact_records compact_merged unfolding oldest4_def .
  have l: "\<not> length (sstables compactManager) \<le> 4" using w_hyps(4) by simp
  have c: "snd (compact compactManager) =
      fold (\<lambda>sst m. RemoveSSTable m sst)
        (drop (length (sstables compactManager) - 4) (sstables compactManager))
        (Flush compactManager [rec_k3])"
    by (simp add: compact_def GetAllSSTables_def Let_def m l)
  show ?thesis
    unfolding c
    by (simp add: compactManager_state Flush_def RemoveSSTable_def Let_def
        key_k_def val_v2_def)
qed

lemma compaction_resurrects_older_value:
  "SSTManager_Get compactManager key_k = Inr (Some val_b) \<and>
   SSTManager_Get (snd (compact compactManager)) key_k = Inr (Some val_v2)"
  by (simp add: SSTManager_Get_def compactManager_state compacted_state getFromSST_def
      startOffsetOf_def scanSST_last)

end
